theory Spec2Isabelle
  imports Complex_Main "HOL-Library.Code_Target_Nat"
begin

section \<open>Values of the configuration document\<close>

text \<open>
  The functions of \<^verbatim>\<open>config-impl.ts\<close> read and write a workspace configuration, a tree
  of JavaScript values. A JavaScript number is a finite value or one of the three
  non-finite values; no function modelled here does arithmetic on it.
\<close>

datatype number = NFinite real | NNaN | NPosInfinity | NNegInfinity

text \<open>
  The values a walk can hold. \<^verbatim>\<open>JsonValue | undefined\<close>: the source returns \<^verbatim>\<open>undefined\<close>
  for a value that is not found, and an array slot that was never assigned reads as
  \<^verbatim>\<open>undefined\<close>. An object is the list of its own properties in the order in which the
  language enumerates them; an array is the list of its elements. Every object and array
  of a document has the prototype it was created with, so \<^verbatim>\<open>value[current]\<close> on an object
  that has no own property of that name reads \<^verbatim>\<open>Object.prototype\<close>: this gives one of its
  functions (\<open>JFunction\<close>, with the name it was read under) or, under the name
  \<^verbatim>\<open>__proto__\<close>, \<^verbatim>\<open>Object.prototype\<close> itself (\<open>JObjectPrototype\<close>). The document is a tree:
  it was parsed from a file, no two slots share a container. \<^verbatim>\<open>Object.prototype\<close> is taken
  as it is when the program starts.
\<close>

datatype JsonValue =
    JUndefined
  | JNull
  | JBool bool
  | JNum number
  | JStr string
  | JArr "JsonValue list"
  | JObj "(string \<times> JsonValue) list"
  | JFunction string
  | JObjectPrototype

text \<open>A path fragment as the walks see it: \<^verbatim>\<open>current: string | number\<close>.\<close>

datatype fragment = FStr string | FNum nat

datatype json_exception = InvalidJsonCharacterException | OtherJsonException

datatype error =
    InvalidJsonPath
  | InvalidValueType string
  | JsonParseFailure json_exception

section \<open>parseJsonPath\<close>

text \<open>
  Strings are lists of 8-bit characters; a path or a value with a character beyond that
  range is outside the model. \<^verbatim>\<open>String.prototype.split\<close> with a non-empty separator cuts
  at every occurrence found scanning from the left; the piece collected so far is \<open>acc\<close>.
  Splitting on the regular expression \<^verbatim>\<open>/\./g\<close> is splitting on the one-character string
  \<^verbatim>\<open>"."\<close>.
\<close>

function split_on :: "string \<Rightarrow> string \<Rightarrow> string \<Rightarrow> string list" where
  "split_on sep acc [] = [acc]"
| "split_on sep acc (c # cs) =
     (if sep \<noteq> [] \<and> take (length sep) (c # cs) = sep
      then acc # split_on sep [] (drop (length sep) (c # cs))
      else split_on sep (acc @ [c]) cs)"
  by pat_completeness auto
termination
  by (relation "measure (\<lambda>(sep, acc, s). length s)") auto

text \<open>
  In a regular expression without the \<^verbatim>\<open>s\<close> flag the dot matches every character except
  a line terminator; among the 8-bit characters these are line feed and carriage return.
\<close>

definition is_line_terminator :: "char \<Rightarrow> bool" where
  "is_line_terminator c \<longleftrightarrow> c = CHR 0x0A \<or> c = CHR 0x0D"

text \<open>The prefix of \<open>xs\<close> that ends with the last occurrence of \<open>c\<close>; empty if there is none.\<close>

definition upto_last :: "char \<Rightarrow> string \<Rightarrow> string" where
  "upto_last c xs = rev (dropWhile (\<lambda>x. x \<noteq> c) (rev xs))"

text \<open>
  \<^verbatim>\<open>((\[.*\])*)\<close> at the position where the name has ended, so \<open>rest\<close> is empty or starts
  with an opening bracket. The greedy \<^verbatim>\<open>.*\<close> runs to the end of the line and backs up to the
  last closing bracket of that line; a second iteration would need one more closing
  bracket on the same line, so the group is that one stretch, or empty.
\<close>

definition bracket_groups :: "string \<Rightarrow> string" where
  "bracket_groups rest =
     (case rest of
        [] \<Rightarrow> []
      | b # t \<Rightarrow>
          (let body = upto_last (CHR '']'') (takeWhile (\<lambda>c. \<not> is_line_terminator c) t)
           in if body = [] then [] else b # body))"

text \<open>
  \<^verbatim>\<open>fragment.match(/([^\[]+)((\[.*\])*)/)\<close>: the expression is not anchored, so the match
  starts at the first character that is not an opening bracket; group 1 is the longest run
  of such characters from there. The result is \<^verbatim>\<open>(match[1], match[2])\<close>, or \<open>None\<close> for
  \<^verbatim>\<open>null\<close>.
\<close>

definition regex_match :: "string \<Rightarrow> (string \<times> string) option" where
  "regex_match fragment =
     (let s = dropWhile (\<lambda>c. c = CHR ''['') fragment
      in if s = [] then None
         else Some (takeWhile (\<lambda>c. c \<noteq> CHR ''['') s,
                    bracket_groups (dropWhile (\<lambda>c. c \<noteq> CHR ''['') s)))"

text \<open>\<^verbatim>\<open>s.slice(1, -1)\<close>\<close>

definition slice_inner :: "string \<Rightarrow> string" where
  "slice_inner s = butlast (tl s)"

text \<open>The \<^verbatim>\<open>while\<close> loop over the fragments, \<open>result\<close> being the array built so far.\<close>

fun parse_fragments :: "string list \<Rightarrow> string list \<Rightarrow> error + string list" where
  "parse_fragments [] result = Inr result"
| "parse_fragments (fragment # fragments) result =
     (case regex_match fragment of
        None \<Rightarrow> Inl InvalidJsonPath
      | Some (m1, m2) \<Rightarrow>
          parse_fragments fragments
            (result @ [m1] @ (if m2 \<noteq> [] then split_on '']['' [] (slice_inner m2) else [])))"

definition parseJsonPath :: "string \<Rightarrow> error + string list" where
  "parseJsonPath path =
     (case parse_fragments (split_on ''.'' [] path) [] of
        Inl e \<Rightarrow> Inl e
      | Inr result \<Rightarrow> Inr (filter (\<lambda>fragment. fragment \<noteq> []) result))"

section \<open>getValueFromPath and setValueFromPath\<close>

text \<open>
  The properties of \<^verbatim>\<open>Object.prototype\<close>: eleven functions, and the accessor \<^verbatim>\<open>__proto__\<close>,
  whose getter returns the prototype of the object it is read on and whose setter replaces
  that prototype when it is given an object or \<^verbatim>\<open>null\<close> and does nothing otherwise.
\<close>

definition function_names :: "string list" where
  "function_names =
     [''constructor'', ''__defineGetter__'', ''__defineSetter__'', ''hasOwnProperty'',
      ''__lookupGetter__'', ''__lookupSetter__'', ''isPrototypeOf'', ''propertyIsEnumerable'',
      ''toString'', ''valueOf'', ''toLocaleString'']"

definition inherited_names :: "string list" where
  "inherited_names = ''__proto__'' # function_names"

text \<open>
  \<^verbatim>\<open>value[current]\<close> where \<open>value\<close> is \<^verbatim>\<open>Object.prototype\<close>: its own function, or \<^verbatim>\<open>null\<close>
  under \<^verbatim>\<open>__proto__\<close> (it has no prototype), or \<^verbatim>\<open>undefined\<close>.
\<close>

definition proto_get :: "string \<Rightarrow> JsonValue" where
  "proto_get k =
     (if k = ''__proto__'' then JNull
      else if k \<in> set function_names then JFunction k
      else JUndefined)"

text \<open>
  \<^verbatim>\<open>value[current]\<close> on an object of the document: the own property if there is one,
  otherwise what \<^verbatim>\<open>Object.prototype\<close> gives for the name.
\<close>

definition obj_get :: "(string \<times> JsonValue) list \<Rightarrow> string \<Rightarrow> JsonValue" where
  "obj_get m k =
     (case map_of m k of
        Some v \<Rightarrow> v
      | None \<Rightarrow>
          if k = ''__proto__'' then JObjectPrototype
          else if k \<in> set function_names then JFunction k
          else JUndefined)"

text \<open>
  The order of the own properties: the keys that are array indices (a decimal numeral
  without leading zero, below \<open>2^32 - 1\<close>) come first, in ascending order, then the other
  keys in the order in which they were created.
\<close>

definition is_digit :: "char \<Rightarrow> bool" where
  "is_digit c \<longleftrightarrow> c \<in> set ''0123456789''"

definition digit_value :: "char \<Rightarrow> nat" where
  "digit_value c = length (takeWhile (\<lambda>d. d \<noteq> c) ''0123456789'')"

definition decimal :: "string \<Rightarrow> nat" where
  "decimal s = foldl (\<lambda>n c. 10 * n + digit_value c) 0 s"

definition is_array_index :: "string \<Rightarrow> bool" where
  "is_array_index k \<longleftrightarrow>
     k \<noteq> [] \<and> list_all is_digit k \<and> (k = ''0'' \<or> hd k \<noteq> CHR ''0'')
     \<and> decimal k < 4294967295"

definition precedes :: "string \<Rightarrow> string \<Rightarrow> bool" where
  "precedes k k' \<longleftrightarrow>
     is_array_index k \<and> (if is_array_index k' then decimal k < decimal k' else True)"

text \<open>
  An assignment \<^verbatim>\<open>value[current] = x\<close> that makes or changes an own property of an object:
  an existing property keeps its place, a new one takes the place its key gives it.
\<close>

fun obj_replace :: "(string \<times> JsonValue) list \<Rightarrow> string \<Rightarrow> JsonValue \<Rightarrow> (string \<times> JsonValue) list" where
  "obj_replace [] k v = []"
| "obj_replace ((k', v') # m) k v = (if k' = k then (k, v) # m else (k', v') # obj_replace m k v)"

fun obj_insert :: "(string \<times> JsonValue) list \<Rightarrow> string \<Rightarrow> JsonValue \<Rightarrow> (string \<times> JsonValue) list" where
  "obj_insert [] k v = [(k, v)]"
| "obj_insert ((k', v') # m) k v =
     (if precedes k k' then (k, v) # (k', v') # m else (k', v') # obj_insert m k v)"

definition obj_set :: "(string \<times> JsonValue) list \<Rightarrow> string \<Rightarrow> JsonValue \<Rightarrow> (string \<times> JsonValue) list" where
  "obj_set m k v = (if map_of m k = None then obj_insert m k v else obj_replace m k v)"

text \<open>
  \<^verbatim>\<open>value[current]\<close> on an array with a number: reading past the end or an unassigned slot
  gives \<^verbatim>\<open>undefined\<close> (no prototype has a property named by a number), writing past the end
  grows the array and leaves the slots in between unassigned. The list stands for the
  indexed properties of the array.
\<close>

definition arr_get :: "JsonValue list \<Rightarrow> nat \<Rightarrow> JsonValue" where
  "arr_get xs i = (if i < length xs then xs ! i else JUndefined)"

definition arr_set :: "JsonValue list \<Rightarrow> nat \<Rightarrow> JsonValue \<Rightarrow> JsonValue list" where
  "arr_set xs i v =
     (if i < length xs then xs[i := v]
      else xs @ replicate (i - length xs) JUndefined @ [v])"

text \<open>\<^verbatim>\<open>value == undefined\<close> holds for \<^verbatim>\<open>undefined\<close> and for \<^verbatim>\<open>null\<close>.\<close>

definition loose_undefined :: "JsonValue \<Rightarrow> bool" where
  "loose_undefined v \<longleftrightarrow> v = JUndefined \<or> v = JNull"

text \<open>
  The callback of the \<^verbatim>\<open>reduce\<close> in \<^verbatim>\<open>getValueFromPath\<close>. Its first branch returns
  \<^verbatim>\<open>undefined\<close> for \<^verbatim>\<open>undefined\<close>, \<^verbatim>\<open>null\<close> and every value whose \<^verbatim>\<open>typeof\<close> is not
  \<^verbatim>\<open>'object'\<close> (a boolean, a number, a string, a function); the second takes a string
  fragment on a value that is not an array, hence an object of the document or
  \<^verbatim>\<open>Object.prototype\<close>; the third a number fragment on an array; everything else is
  \<^verbatim>\<open>undefined\<close>.
\<close>

fun get_step :: "JsonValue \<Rightarrow> fragment \<Rightarrow> JsonValue" where
  "get_step (JObj m) (FStr k) = obj_get m k"
| "get_step JObjectPrototype (FStr k) = proto_get k"
| "get_step (JArr xs) (FNum i) = arr_get xs i"
| "get_step value current = JUndefined"

definition get_walk :: "JsonValue \<Rightarrow> fragment list \<Rightarrow> JsonValue" where
  "get_walk root_value fragments = foldl get_step root_value fragments"

text \<open>
  \<^verbatim>\<open>parseJsonPath\<close> is called before the \<^verbatim>\<open>try\<close> block, so its error leaves the function;
  its result is an array of strings. The callback itself raises nothing.
\<close>

definition getValueFromPath :: "JsonValue \<Rightarrow> string \<Rightarrow> error + JsonValue" where
  "getValueFromPath root_value path =
     (case parseJsonPath path of
        Inl e \<Rightarrow> Inl e
      | Inr fragments \<Rightarrow> Inr (get_walk root_value (map FStr fragments)))"

text \<open>
  The container created at a missing slot: \<^verbatim>\<open>[]\<close> when \<^verbatim>\<open>typeof fragments[index + 1]\<close>
  is \<^verbatim>\<open>'number'\<close>, \<^verbatim>\<open>{}\<close> when it is \<^verbatim>\<open>'string'\<close>.
\<close>

fun fresh_container :: "fragment \<Rightarrow> JsonValue" where
  "fresh_container (FNum i) = JArr []"
| "fresh_container (FStr k) = JObj []"

text \<open>
  What a set does. \<open>Walked result node\<close>: the \<^verbatim>\<open>reduce\<close> returned \<open>result\<close> and the node
  it started from is now \<open>node\<close>. \<open>LeftDocument\<close>: the call assigned outside the own
  properties of the document. This happens in two ways, both through the name
  \<^verbatim>\<open>__proto__\<close>: the last step assigns an object or \<^verbatim>\<open>null\<close> under that name to an object
  that has no own property of that name, which replaces the prototype of that object; or
  the walk has stepped into \<^verbatim>\<open>Object.prototype\<close> and assigns one of its properties. What
  the call returns then, and what later reads find, is not described here.
\<close>

datatype set_result = Walked JsonValue JsonValue | LeftDocument

fun write_back :: "(JsonValue \<Rightarrow> JsonValue) \<Rightarrow> set_result \<Rightarrow> set_result" where
  "write_back f (Walked result child) = Walked result (f child)"
| "write_back f LeftDocument = LeftDocument"

text \<open>The values that are objects of the language, for the setter of \<^verbatim>\<open>__proto__\<close>.\<close>

fun is_object :: "JsonValue \<Rightarrow> bool" where
  "is_object (JArr xs) = True"
| "is_object (JObj m) = True"
| "is_object (JFunction f) = True"
| "is_object JObjectPrototype = True"
| "is_object v = False"

text \<open>
  The \<^verbatim>\<open>reduce\<close> in \<^verbatim>\<open>setValueFromPath\<close>, from the step whose accumulator is \<open>value\<close>.
  The accumulator is a node of the document, or a value read from \<^verbatim>\<open>Object.prototype\<close>,
  and the callback assigns into it. The step is the last one
  (\<^verbatim>\<open>index === fragments.length - 1\<close>) when no fragment follows. Once a step has returned
  \<^verbatim>\<open>undefined\<close>, every later step returns \<^verbatim>\<open>undefined\<close> and assigns nothing.

  On an object of the document: the last step assigns and returns \<^verbatim>\<open>value[current]\<close> as
  read after the assignment; under \<^verbatim>\<open>__proto__\<close> without an own property the assignment
  runs the inherited setter, which ignores a value that is neither an object nor \<^verbatim>\<open>null\<close>,
  and the read returns \<^verbatim>\<open>Object.prototype\<close>. A step that is not the last creates a
  container as an own property when \<^verbatim>\<open>value[current]\<close> is \<^verbatim>\<open>undefined\<close> or \<^verbatim>\<open>null\<close>, and goes
  on with \<^verbatim>\<open>value[current]\<close>; what the walk does below an own property is seen in that
  property, a value read from \<^verbatim>\<open>Object.prototype\<close> is no property of the object.

  On \<^verbatim>\<open>Object.prototype\<close>: its prototype cannot be replaced, so the setter of \<^verbatim>\<open>__proto__\<close>
  raises a \<^verbatim>\<open>TypeError\<close> when it is given an object, also the container that a step which
  is not the last creates there since it reads \<^verbatim>\<open>null\<close>; the \<^verbatim>\<open>catch\<close> turns the error into
  \<^verbatim>\<open>undefined\<close>. Given \<^verbatim>\<open>null\<close> or a value that is no object the setter changes nothing, and
  the read returns \<^verbatim>\<open>null\<close>. Under the name of a function the function is read, and the next
  step returns \<^verbatim>\<open>undefined\<close>. Every other assignment writes a property of
  \<^verbatim>\<open>Object.prototype\<close>.
\<close>

fun set_walk :: "JsonValue \<Rightarrow> fragment list \<Rightarrow> JsonValue \<Rightarrow> set_result" where
  "set_walk value [] newValue = Walked value value"
| "set_walk (JObj m) [FStr k] newValue =
     (if map_of m k = None \<and> k = ''__proto__'' then
        (if is_object newValue \<or> newValue = JNull then LeftDocument
         else Walked JObjectPrototype (JObj m))
      else Walked newValue (JObj (obj_set m k newValue)))"
| "set_walk (JObj m) (FStr k # next # rest) newValue =
     (let m1 = (if loose_undefined (obj_get m k) then obj_set m k (fresh_container next) else m)
      in write_back
           (\<lambda>child. if map_of m1 k = None then JObj m1 else JObj (obj_set m1 k child))
           (set_walk (obj_get m1 k) (next # rest) newValue))"
| "set_walk JObjectPrototype [FStr k] newValue =
     (if k = ''__proto__'' then
        (if is_object newValue then Walked JUndefined JObjectPrototype
         else Walked JNull JObjectPrototype)
      else LeftDocument)"
| "set_walk JObjectPrototype (FStr k # next # rest) newValue =
     (if k = ''__proto__'' then Walked JUndefined JObjectPrototype
      else if loose_undefined (proto_get k) then LeftDocument
      else write_back (\<lambda>child. JObjectPrototype) (set_walk (proto_get k) (next # rest) newValue))"
| "set_walk (JArr xs) [FNum i] newValue = Walked newValue (JArr (arr_set xs i newValue))"
| "set_walk (JArr xs) (FNum i # next # rest) newValue =
     (let xs1 = (if loose_undefined (arr_get xs i) then arr_set xs i (fresh_container next) else xs)
      in write_back (\<lambda>child. JArr (arr_set xs1 i child))
           (set_walk (arr_get xs1 i) (next # rest) newValue))"
| "set_walk value (current # rest) newValue = Walked JUndefined value"

text \<open>The error of the parser leaves the function, as in \<^verbatim>\<open>getValueFromPath\<close>.\<close>

definition setValueFromPath :: "JsonValue \<Rightarrow> string \<Rightarrow> JsonValue \<Rightarrow> error + set_result" where
  "setValueFromPath root_value path newValue =
     (case parseJsonPath path of
        Inl e \<Rightarrow> Inl e
      | Inr fragments \<Rightarrow> Inr (set_walk root_value (map FStr fragments) newValue))"

section \<open>normalizeValue\<close>

text \<open>
  \<^verbatim>\<open>ConfigCommandSchemaValue\<close> is declared with the command's schema: the value typed on
  the command line, a boolean, a number or a string.
\<close>

datatype raw_value = RBool bool | RNum number | RStr string

fun raw_json :: "raw_value \<Rightarrow> JsonValue" where
  "raw_json (RBool b) = JBool b"
| "raw_json (RNum n) = JNum n"
| "raw_json (RStr s) = JStr s"

text \<open>
  What the function takes from outside this file: \<^verbatim>\<open>parseJson\<close> of the devkit in
  \<^verbatim>\<open>JsonParseMode.Loose\<close>, which returns a value or raises, and the conversions of the
  language between strings and numbers.
\<close>

record host =
  parseJson :: "string \<Rightarrow> json_exception + JsonValue"
  stringToNumber :: "string \<Rightarrow> number"
  numberToString :: "number \<Rightarrow> string"

definition validCliPaths :: "(string \<times> string) list" where
  "validCliPaths =
     [(''cli.warnings.versionMismatch'', ''boolean''),
      (''cli.warnings.typescriptMismatch'', ''boolean''),
      (''cli.defaultCollection'', ''string''),
      (''cli.packageManager'', ''string'')]"

text \<open>\<^verbatim>\<open>'' + value\<close>\<close>

fun to_string :: "host \<Rightarrow> raw_value \<Rightarrow> string" where
  "to_string h (RStr s) = s"
| "to_string h (RBool b) = (if b then ''true'' else ''false'')"
| "to_string h (RNum n) = numberToString h n"

text \<open>\<^verbatim>\<open>Number(value)\<close>\<close>

fun to_number :: "host \<Rightarrow> raw_value \<Rightarrow> number" where
  "to_number h (RNum n) = n"
| "to_number h (RBool b) = NFinite (if b then 1 else 0)"
| "to_number h (RStr s) = stringToNumber h s"

fun isFinite :: "number \<Rightarrow> bool" where
  "isFinite (NFinite x) = True"
| "isFinite n = False"

text \<open>
  \<^verbatim>\<open>trim()\<close> removes white space and line terminators from both ends; among the 8-bit
  characters these are tab, line feed, vertical tab, form feed, carriage return, space
  and the no-break space.
\<close>

definition is_white_space :: "char \<Rightarrow> bool" where
  "is_white_space c \<longleftrightarrow>
     c = CHR 0x09 \<or> c = CHR 0x0A \<or> c = CHR 0x0B \<or> c = CHR 0x0C \<or> c = CHR 0x0D
     \<or> c = CHR 0x20 \<or> c = CHR 0xA0"

definition trim :: "string \<Rightarrow> string" where
  "trim s = rev (dropWhile is_white_space (rev (dropWhile is_white_space s)))"

text \<open>
  The \<^verbatim>\<open>switch\<close> on the registered type, and the \<^verbatim>\<open>throw\<close> that follows it for every
  case that leaves the \<^verbatim>\<open>switch\<close> through \<^verbatim>\<open>break\<close> or matches no case.
\<close>

definition normalizeTyped :: "host \<Rightarrow> string \<Rightarrow> raw_value \<Rightarrow> error + JsonValue" where
  "normalizeTyped h cliOptionType value =
     (if cliOptionType = ''boolean'' then
        (if trim (to_string h value) = ''true'' then Inr (JBool True)
         else if trim (to_string h value) = ''false'' then Inr (JBool False)
         else Inl (InvalidValueType cliOptionType))
      else if cliOptionType = ''number'' then
        (let numberValue = to_number h value
         in if \<not> isFinite numberValue then Inr (JNum numberValue)
            else Inl (InvalidValueType cliOptionType))
      else if cliOptionType = ''string'' then Inr (raw_json value)
      else Inl (InvalidValueType cliOptionType))"

text \<open>\<^verbatim>\<open>value.startsWith('{')\<close>\<close>

definition starts_with_brace :: "string \<Rightarrow> bool" where
  "starts_with_brace s \<longleftrightarrow> take 1 s = ''{''"

text \<open>The part after the registry lookup: the lenient parse of a string and its \<^verbatim>\<open>catch\<close>.\<close>

definition normalizeUntyped :: "host \<Rightarrow> raw_value \<Rightarrow> error + JsonValue" where
  "normalizeUntyped h value =
     (case value of
        RStr s \<Rightarrow>
          (case parseJson h s of
             Inr v \<Rightarrow> Inr v
           | Inl e \<Rightarrow>
               if e = InvalidJsonCharacterException \<and> \<not> starts_with_brace s then Inr (JStr s)
               else Inl (JsonParseFailure e))
      | _ \<Rightarrow> Inr (raw_json value))"

definition normalizeValue :: "host \<Rightarrow> raw_value \<Rightarrow> string \<Rightarrow> error + JsonValue" where
  "normalizeValue h value path =
     (case map_of validCliPaths path of
        Some cliOptionType \<Rightarrow>
          if cliOptionType \<noteq> [] then normalizeTyped h cliOptionType value
          else normalizeUntyped h value
      | None \<Rightarrow> normalizeUntyped h value)"

section \<open>Notions of the specification\<close>

text \<open>
  The path grammar of the specification: a path is a non-empty sequence of segments joined
  by dots, a segment is a name followed by bracketed groups. \<open>join\<close> is
  \<^verbatim>\<open>Array.prototype.join\<close>.
\<close>

fun join :: "string \<Rightarrow> string list \<Rightarrow> string" where
  "join sep [] = []"
| "join sep [x] = x"
| "join sep (x # y # ys) = x @ sep @ join sep (y # ys)"

definition bracketed :: "string list \<Rightarrow> string" where
  "bracketed indices = concat (map (\<lambda>i. ''['' @ i @ '']'') indices)"

fun segment_text :: "string \<times> string list \<Rightarrow> string" where
  "segment_text (name, indices) = name @ bracketed indices"

definition path_text :: "(string \<times> string list) list \<Rightarrow> string" where
  "path_text segments = join ''.'' (map segment_text segments)"

text \<open>
  A name is one or more characters other than the brackets and the dot. Of the bracketed
  groups only those are considered here whose content is no number in any reading: a
  non-empty text free of brackets, dots, line terminators and digits.
\<close>

definition valid_name :: "string \<Rightarrow> bool" where
  "valid_name name \<longleftrightarrow>
     name \<noteq> [] \<and> list_all (\<lambda>c. c \<noteq> CHR ''['' \<and> c \<noteq> CHR '']'' \<and> c \<noteq> CHR ''.'') name"

definition valid_index :: "string \<Rightarrow> bool" where
  "valid_index i \<longleftrightarrow>
     i \<noteq> [] \<and>
     list_all (\<lambda>c. c \<noteq> CHR ''['' \<and> c \<noteq> CHR '']'' \<and> c \<noteq> CHR ''.'' \<and> \<not> is_line_terminator c
                  \<and> \<not> is_digit c) i"

fun valid_segment :: "string \<times> string list \<Rightarrow> bool" where
  "valid_segment (name, indices) \<longleftrightarrow> valid_name name \<and> list_all valid_index indices"

text \<open>The fragments a segment stands for: its name, then the content of each group.\<close>

fun segment_fragments :: "string \<times> string list \<Rightarrow> string list" where
  "segment_fragments (name, indices) = name # indices"

text \<open>
  Resolution of a path as the specification words it: a key-step needs a mapping that has
  the key, an index-step needs a sequence that has the position, and the walk descends
  into the addressed child; \<open>None\<close> is "cannot be fully resolved".
\<close>

fun spec_resolve :: "JsonValue \<Rightarrow> fragment list \<Rightarrow> JsonValue option" where
  "spec_resolve v [] = Some v"
| "spec_resolve (JObj m) (FStr k # rest) =
     (case map_of m k of None \<Rightarrow> None | Some child \<Rightarrow> spec_resolve child rest)"
| "spec_resolve (JArr xs) (FNum i # rest) =
     (if i < length xs then spec_resolve (xs ! i) rest else None)"
| "spec_resolve v (step # rest) = None"

text \<open>A scalar: a boolean, a number or a string.\<close>

fun is_scalar :: "JsonValue \<Rightarrow> bool" where
  "is_scalar (JBool b) = True"
| "is_scalar (JNum n) = True"
| "is_scalar (JStr s) = True"
| "is_scalar v = False"

text \<open>A container of the kind a step applies to: a mapping for a key, a sequence for an index.\<close>

fun container_for :: "fragment \<Rightarrow> JsonValue \<Rightarrow> bool" where
  "container_for (FStr k) (JObj m) = True"
| "container_for (FNum i) (JArr xs) = True"
| "container_for step v = False"

text \<open>
  The values that are no part of a document and no container: \<^verbatim>\<open>undefined\<close>, \<^verbatim>\<open>null\<close>, a
  function, \<^verbatim>\<open>Object.prototype\<close>.
\<close>

fun off_document :: "JsonValue \<Rightarrow> bool" where
  "off_document JUndefined = True"
| "off_document JNull = True"
| "off_document (JFunction f) = True"
| "off_document JObjectPrototype = True"
| "off_document v = False"

text \<open>
  A value as a document holds it, or a value to be written: no function and not
  \<^verbatim>\<open>Object.prototype\<close>, at any depth.
\<close>

fun is_document :: "JsonValue \<Rightarrow> bool" where
  "is_document (JArr xs) = list_all is_document xs"
| "is_document (JObj m) = list_all is_document (map snd m)"
| "is_document (JFunction f) = False"
| "is_document JObjectPrototype = False"
| "is_document v = True"

text \<open>A step that does not name a property of \<^verbatim>\<open>Object.prototype\<close>.\<close>

fun plain_step :: "fragment \<Rightarrow> bool" where
  "plain_step (FStr k) \<longleftrightarrow> k \<notin> set inherited_names"
| "plain_step (FNum i) \<longleftrightarrow> True"

text \<open>
  Modelled from the spec: \<^verbatim>\<open>parseJson\<close> with \<^verbatim>\<open>JsonParseMode.Loose\<close> belongs to the devkit
  and is not part of this file. The specification fixes its outcome at two texts: \<^verbatim>\<open>42\<close>
  parses to the number 42, and \<^verbatim>\<open>not-json-but-plain\<close> fails on an invalid JSON character.
  Every other text is left to the parser \<open>p\<close>.
\<close>

definition spec_parseJson :: "(string \<Rightarrow> json_exception + JsonValue) \<Rightarrow> string \<Rightarrow> json_exception + JsonValue" where
  "spec_parseJson p s =
     (if s = ''42'' then Inr (JNum (NFinite 42))
      else if s = ''not-json-but-plain'' then Inl InvalidJsonCharacterException
      else p s)"

text \<open>
  A concrete host, for applying to a concrete input what holds for every host. Its parser
  rejects every text at the first character; its conversion of a string to a number gives
  \<^verbatim>\<open>NaN\<close>, as \<^verbatim>\<open>Number\<close> does for a string that is no numeral; its conversion of a number
  to a string gives \<^verbatim>\<open>"NaN"\<close>, as for the number \<^verbatim>\<open>NaN\<close>.
\<close>

definition rejecting_host :: host where
  "rejecting_host =
     \<lparr>parseJson = (\<lambda>s. Inl InvalidJsonCharacterException),
      stringToNumber = (\<lambda>s. NNaN),
      numberToString = (\<lambda>n. ''NaN'')\<rparr>"

section \<open>Properties of the containers\<close>

lemma map_of_obj_replace:
  "map_of m k \<noteq> None \<Longrightarrow> map_of (obj_replace m k v) = (map_of m)(k \<mapsto> v)"
  by (induction m) (auto simp: fun_eq_iff)

lemma map_of_obj_insert:
  "map_of m k = None \<Longrightarrow> map_of (obj_insert m k v) = (map_of m)(k \<mapsto> v)"
  by (induction m) (auto simp: fun_eq_iff split: if_splits)

lemma map_of_obj_set: "map_of (obj_set m k v) = (map_of m)(k \<mapsto> v)"
  by (simp add: obj_set_def map_of_obj_replace map_of_obj_insert)

lemma obj_get_own: "map_of m k = Some v \<Longrightarrow> obj_get m k = v"
  by (simp add: obj_get_def)

lemma obj_get_Nil:
  "obj_get [] k =
     (if k = ''__proto__'' then JObjectPrototype
      else if k \<in> set function_names then JFunction k else JUndefined)"
  by (simp add: obj_get_def)

lemma obj_get_Cons [simp]: "obj_get ((k', v) # m) k = (if k' = k then v else obj_get m k)"
  by (simp add: obj_get_def)

lemma obj_get_obj_set_same [simp]: "obj_get (obj_set m k v) k = v"
  by (simp add: obj_get_def map_of_obj_set)

lemma obj_replace_twice: "obj_replace (obj_replace m k v) k w = obj_replace m k w"
  by (induction m) auto

lemma obj_replace_insert:
  "map_of m k = None \<Longrightarrow> obj_replace (obj_insert m k v) k w = obj_insert m k w"
  by (induction m) (auto split: if_splits)

lemma obj_set_twice [simp]: "obj_set (obj_set m k v) k w = obj_set m k w"
  by (simp add: obj_set_def map_of_obj_replace map_of_obj_insert obj_replace_twice obj_replace_insert)

lemma obj_replace_present: "map_of m k = Some v \<Longrightarrow> obj_replace m k v = m"
  by (induction m) (auto split: if_splits)

lemma obj_set_present: "map_of m k = Some v \<Longrightarrow> obj_set m k v = m"
  by (simp add: obj_set_def obj_replace_present)

lemma obj_set_Nil [simp]: "obj_set [] k v = [(k, v)]"
  by (simp add: obj_set_def)

lemma obj_set_Cons_same [simp]: "obj_set ((k, v') # m) k v = (k, v) # m"
  by (simp add: obj_set_def)

lemma arr_get_Nil [simp]: "arr_get [] i = JUndefined"
  by (simp add: arr_get_def)

lemma arr_get_arr_set_same [simp]: "arr_get (arr_set xs i v) i = v"
  by (simp add: arr_get_def arr_set_def nth_append)

lemma arr_set_twice [simp]: "arr_set (arr_set xs i v) i w = arr_set xs i w"
  by (simp add: arr_set_def list_update_append)

lemma arr_set_arr_get: "arr_get xs i \<noteq> JUndefined \<Longrightarrow> arr_set xs i (arr_get xs i) = xs"
  by (simp add: arr_get_def arr_set_def split: if_splits)

section \<open>Properties of the walks\<close>

lemma get_walk_Nil [simp]: "get_walk v [] = v"
  by (simp add: get_walk_def)

lemma get_walk_Cons [simp]: "get_walk v (f # fs) = get_walk (get_step v f) fs"
  by (simp add: get_walk_def)

lemma get_walk_append: "get_walk v (fs @ gs) = get_walk (get_walk v fs) gs"
  by (simp add: get_walk_def)

lemma get_walk_undefined [simp]: "get_walk JUndefined fs = JUndefined"
  by (induction fs) simp_all

lemma get_walk_loose:
  "loose_undefined c \<Longrightarrow> get_walk c pre = (if pre = [] then c else JUndefined)"
  by (cases pre) (auto simp: loose_undefined_def)

lemma get_walk_function: "get_walk (JFunction f) pre = (if pre = [] then JFunction f else JUndefined)"
  by (cases pre) simp_all

lemma off_document_proto_get: "off_document (proto_get k)"
  by (simp add: proto_get_def)

lemma off_document_step: "off_document v \<Longrightarrow> off_document (get_step v f)"
  by (cases v; cases f) (simp_all add: off_document_proto_get)

lemma off_document_walk: "off_document v \<Longrightarrow> off_document (get_walk v fs)"
  by (induction fs arbitrary: v) (simp_all add: off_document_step)

lemma obj_get_cases:
  "(\<exists>c. map_of m k = Some c \<and> obj_get m k = c) \<or> (map_of m k = None \<and> off_document (obj_get m k))"
  by (cases "map_of m k") (simp_all add: obj_get_def)

lemma plain_obj_get: "k \<notin> set inherited_names \<Longrightarrow> map_of m k = None \<Longrightarrow> obj_get m k = JUndefined"
  by (simp add: obj_get_def inherited_names_def)

lemma plain_proto_get: "k \<notin> set inherited_names \<Longrightarrow> proto_get k = JUndefined"
  by (simp add: proto_get_def inherited_names_def)

section \<open>Properties of the walk of a set\<close>

lemma set_walk_function [simp]:
  "set_walk (JFunction f) (step # rest) v = Walked JUndefined (JFunction f)"
  by (cases rest) simp_all

lemma set_walk_off_scalar:
  "is_scalar c \<Longrightarrow> set_walk c (step # rest) v = Walked JUndefined c"
  by (cases c; cases rest) simp_all

lemma write_back_Walked:
  "write_back f r = Walked res d \<longleftrightarrow> (\<exists>c. r = Walked res c \<and> d = f c)"
  by (cases r) auto

lemma write_back_Left [simp]: "write_back f r = LeftDocument \<longleftrightarrow> r = LeftDocument"
  by (cases r) auto

text \<open>The step through an own property that holds something.\<close>

lemma set_walk_descend_obj:
  "q \<noteq> [] \<Longrightarrow> map_of m k = Some c \<Longrightarrow> \<not> loose_undefined c \<Longrightarrow>
   set_walk (JObj m) (FStr k # q) v =
     write_back (\<lambda>child. JObj (obj_set m k child)) (set_walk c q v)"
  by (cases q) (simp_all add: Let_def obj_get_own)

lemma set_walk_descend_arr:
  "q \<noteq> [] \<Longrightarrow> \<not> loose_undefined (arr_get xs i) \<Longrightarrow>
   set_walk (JArr xs) (FNum i # q) v =
     write_back (\<lambda>child. JArr (arr_set xs i child)) (set_walk (arr_get xs i) q v)"
  by (cases q) (simp_all add: Let_def)

text \<open>The step that finds nothing and creates a container.\<close>

lemma set_walk_create_obj:
  "loose_undefined (obj_get m k) \<Longrightarrow>
   set_walk (JObj m) (FStr k # nxt # rest) v =
     write_back (\<lambda>child. JObj (obj_set m k child))
       (set_walk (fresh_container nxt) (nxt # rest) v)"
  by (simp add: Let_def map_of_obj_set)

lemma set_walk_create_arr:
  "loose_undefined (arr_get xs i) \<Longrightarrow>
   set_walk (JArr xs) (FNum i # nxt # rest) v =
     write_back (\<lambda>child. JArr (arr_set xs i child))
       (set_walk (fresh_container nxt) (nxt # rest) v)"
  by (simp add: Let_def)

text \<open>
  A walk that starts in a fresh container of the kind of its first step and names no
  property of \<^verbatim>\<open>Object.prototype\<close> succeeds.
\<close>

lemma set_walk_fresh:
  "list_all plain_step (f # rest) \<Longrightarrow> \<exists>c. set_walk (fresh_container f) (f # rest) v = Walked v c"
proof (induction rest arbitrary: f)
  case Nil
  then show ?case by (cases f) (simp_all add: inherited_names_def)
next
  case (Cons g rest)
  from Cons.prems have "list_all plain_step (g # rest)" by simp
  from Cons.IH [OF this] obtain c where c: "set_walk (fresh_container g) (g # rest) v = Walked v c"
    by blast
  show ?case
  proof (cases f)
    case (FStr k)
    with Cons.prems have "obj_get [] k = JUndefined"
      by (simp add: plain_obj_get)
    then have "loose_undefined (obj_get [] k)" by (simp add: loose_undefined_def)
    with c FStr show ?thesis
      by (simp add: set_walk_create_obj del: set_walk.simps)
  next
    case (FNum i)
    have "loose_undefined (arr_get [] i)" by (simp add: loose_undefined_def)
    with c FNum show ?thesis
      by (simp add: set_walk_create_arr del: set_walk.simps)
  qed
qed

lemma set_walk_keeps_array:
  "set_walk (JArr xs) (FNum i # rest) v = Walked r d \<Longrightarrow> \<exists>ys. d = JArr ys"
  by (cases rest) (auto simp: Let_def write_back_Walked)

lemma set_walk_keeps_object:
  "set_walk (JObj m) (FStr k # rest) v = Walked r d \<Longrightarrow> \<exists>m'. d = JObj m'"
  by (cases rest) (auto simp: Let_def write_back_Walked split: if_splits)

lemma set_walk_roundtrip:
  "FStr ''__proto__'' \<notin> set frs \<Longrightarrow> frs \<noteq> [] \<Longrightarrow> set_walk val frs v = Walked res d \<Longrightarrow>
   res \<noteq> JUndefined \<Longrightarrow> get_walk d frs = v"
proof (induction val frs v arbitrary: res d rule: set_walk.induct)
  case (2 m k newValue)
  then show ?case by (auto split: if_splits)
next
  case (3 m k nxt rest newValue)
  define m1 where "m1 = (if loose_undefined (obj_get m k) then obj_set m k (fresh_container nxt) else m)"
  from "3.prems"(3) obtain c where
    inner: "set_walk (obj_get m1 k) (nxt # rest) newValue = Walked res c"
    and d: "d = (if map_of m1 k = None then JObj m1 else JObj (obj_set m1 k c))"
    by (auto simp: Let_def write_back_Walked m1_def)
  have own: "map_of m1 k \<noteq> None"
  proof
    assume none: "map_of m1 k = None"
    then have nl: "\<not> loose_undefined (obj_get m k)" and "map_of m k = None"
      by (auto simp: m1_def map_of_obj_set split: if_splits)
    with "3.prems"(1) have "obj_get m k = JFunction k"
      by (auto simp: obj_get_def loose_undefined_def split: if_splits)
    with inner nl "3.prems"(4) show False by (simp add: m1_def)
  qed
  from "3.prems"(1) have "FStr ''__proto__'' \<notin> set (nxt # rest)" by simp
  from "3.IH" [OF m1_def this _ inner "3.prems"(4)] have "get_walk c (nxt # rest) = newValue"
    by simp
  moreover from own d have "d = JObj (obj_set m1 k c)" by auto
  ultimately show ?case by simp
next
  case (4 k newValue)
  then show ?case by (auto split: if_splits)
next
  case (5 k nxt rest newValue)
  from "5.prems"(1) have k: "k \<noteq> ''__proto__''" by auto
  show ?case
  proof (cases "k \<in> set function_names")
    case True
    with k "5.prems"(3,4) show ?thesis
      by (simp add: proto_get_def loose_undefined_def)
  next
    case False
    with k "5.prems"(3) show ?thesis
      by (simp add: proto_get_def loose_undefined_def)
  qed
next
  case (7 xs i nxt rest newValue)
  define xs1 where "xs1 = (if loose_undefined (arr_get xs i) then arr_set xs i (fresh_container nxt) else xs)"
  from "7.prems"(3) obtain c where
    inner: "set_walk (arr_get xs1 i) (nxt # rest) newValue = Walked res c"
    and d: "d = JArr (arr_set xs1 i c)"
    by (auto simp: Let_def write_back_Walked xs1_def)
  from "7.prems"(1) have "FStr ''__proto__'' \<notin> set (nxt # rest)" by simp
  from "7.IH" [OF xs1_def this _ inner "7.prems"(4)] have "get_walk c (nxt # rest) = newValue"
    by simp
  with d show ?case by simp
qed simp_all

text \<open>
  On a path that names no property of \<^verbatim>\<open>Object.prototype\<close> an assignment is followed by
  success, so a walk that returns \<^verbatim>\<open>undefined\<close> has assigned nothing.
\<close>

lemma set_walk_failure_unchanged:
  "v \<noteq> JUndefined \<Longrightarrow> list_all plain_step frs \<Longrightarrow> set_walk val frs v = Walked JUndefined d \<Longrightarrow>
   d = val"
proof (induction val frs v arbitrary: d rule: set_walk.induct)
  case (2 m k newValue)
  then show ?case by (auto split: if_splits)
next
  case (3 m k nxt rest newValue)
  from "3.prems"(2) have k: "k \<notin> set inherited_names" and pl: "list_all plain_step (nxt # rest)"
    by simp_all
  show ?case
  proof (cases "loose_undefined (obj_get m k)")
    case True
    from set_walk_fresh [OF pl] obtain c where
      "set_walk (fresh_container nxt) (nxt # rest) newValue = Walked newValue c" by blast
    with True "3.prems"(1,3) show ?thesis
      by (simp add: set_walk_create_obj del: set_walk.simps)
  next
    case False
    with k obtain c where own: "map_of m k = Some c"
      using plain_obj_get [of k m] by (cases "map_of m k") (auto simp: loose_undefined_def)
    then have g: "obj_get m k = c" by (rule obj_get_own)
    from "3.prems"(3) False own g obtain c' where
      inner: "set_walk c (nxt # rest) newValue = Walked JUndefined c'"
      and d: "d = JObj (obj_set m k c')"
      by (auto simp: Let_def write_back_Walked)
    from False g have m1: "m = (if loose_undefined (obj_get m k) then obj_set m k (fresh_container nxt) else m)"
      by simp
    from "3.IH" [OF m1 "3.prems"(1) pl] inner g have "c' = c" by simp
    with d own show ?thesis by (simp add: obj_set_present)
  qed
next
  case (4 k newValue)
  then show ?case by (auto split: if_splits)
next
  case (5 k nxt rest newValue)
  then show ?case by (auto simp: write_back_Walked split: if_splits)
next
  case (7 xs i nxt rest newValue)
  from "7.prems"(2) have pl: "list_all plain_step (nxt # rest)" by simp
  show ?case
  proof (cases "loose_undefined (arr_get xs i)")
    case True
    from set_walk_fresh [OF pl] obtain c where
      "set_walk (fresh_container nxt) (nxt # rest) newValue = Walked newValue c" by blast
    with True "7.prems"(1,3) show ?thesis
      by (simp add: set_walk_create_arr del: set_walk.simps)
  next
    case False
    from "7.prems"(3) False obtain c' where
      inner: "set_walk (arr_get xs i) (nxt # rest) newValue = Walked JUndefined c'"
      and d: "d = JArr (arr_set xs i c')"
      by (auto simp: Let_def write_back_Walked)
    from False have xs1: "xs = (if loose_undefined (arr_get xs i) then arr_set xs i (fresh_container nxt) else xs)"
      by simp
    from "7.IH" [OF xs1 "7.prems"(1) pl] inner have "c' = arr_get xs i" by simp
    with d False show ?thesis by (simp add: arr_set_arr_get loose_undefined_def)
  qed
qed auto

text \<open>
  A value other than \<^verbatim>\<open>undefined\<close>, \<^verbatim>\<open>null\<close>, a function and \<^verbatim>\<open>Object.prototype\<close> is reached
  through own properties and elements only.
\<close>

lemma get_step_on_document:
  "\<not> off_document (get_step val p) \<Longrightarrow>
   (\<exists>m k. val = JObj m \<and> p = FStr k \<and> map_of m k = Some (get_step val p))
   \<or> (\<exists>xs i. val = JArr xs \<and> p = FNum i)"
proof (cases val; cases p)
  fix m k assume "val = JObj m" "p = FStr k" and a: "\<not> off_document (get_step val p)"
  with obj_get_cases [of m k] show ?thesis by auto
next
  fix k assume "val = JObjectPrototype" "p = FStr k" and a: "\<not> off_document (get_step val p)"
  with off_document_proto_get [of k] show ?thesis by simp
qed simp_all

lemma off_document_loose: "loose_undefined c \<Longrightarrow> off_document c"
  by (auto simp: loose_undefined_def)

lemma set_walk_scalar_blocks:
  "is_scalar (get_walk doc pre) \<Longrightarrow> rest \<noteq> [] \<Longrightarrow>
   set_walk doc (pre @ rest) v = Walked JUndefined doc"
proof (induction pre arbitrary: doc)
  case Nil
  then show ?case by (cases rest) (simp_all add: set_walk_off_scalar)
next
  case (Cons p pre)
  let ?c = "get_step doc p"
  from Cons.prems(1) have sc: "is_scalar (get_walk ?c pre)" by simp
  have on: "\<not> off_document ?c"
  proof
    assume "off_document ?c"
    then have "off_document (get_walk ?c pre)" by (rule off_document_walk)
    with sc show False by (cases "get_walk ?c pre") simp_all
  qed
  then have nl: "\<not> loose_undefined ?c" using off_document_loose by blast
  have q: "pre @ rest \<noteq> []" using Cons.prems(2) by simp
  from on consider (obj) m k where "doc = JObj m" "p = FStr k" "map_of m k = Some ?c"
    | (arr) xs i where "doc = JArr xs" "p = FNum i"
    using get_step_on_document by blast
  then show ?case
  proof cases
    case obj
    with nl Cons.IH [OF sc Cons.prems(2)] q show ?thesis
      by (simp add: set_walk_descend_obj obj_set_present del: set_walk.simps)
  next
    case arr
    with nl Cons.IH [OF sc Cons.prems(2)] q show ?thesis
      by (simp add: set_walk_descend_arr arr_set_arr_get loose_undefined_def del: set_walk.simps)
  qed
qed

text \<open>
  The walk of a set down to a slot that reads \<^verbatim>\<open>undefined\<close> puts a fresh container there
  and does in it what it would do in a fresh container alone.
\<close>

lemma set_walk_materializes:
  "container_for step (get_walk doc pre) \<Longrightarrow> get_walk doc (pre @ [step]) = JUndefined \<Longrightarrow>
   (set_walk (fresh_container nxt) (nxt # rest) v = LeftDocument \<longrightarrow>
      set_walk doc (pre @ step # nxt # rest) v = LeftDocument)
   \<and> (\<forall>r c. set_walk (fresh_container nxt) (nxt # rest) v = Walked r c \<longrightarrow>
      (\<exists>d. set_walk doc (pre @ step # nxt # rest) v = Walked r d \<and> get_walk d (pre @ [step]) = c))"
proof (induction pre arbitrary: doc)
  case Nil
  show ?case
  proof (cases step)
    case (FStr k)
    with Nil obtain m where doc: "doc = JObj m" and "obj_get m k = JUndefined"
      by (cases doc) simp_all
    then have "loose_undefined (obj_get m k)" by (simp add: loose_undefined_def)
    with doc FStr show ?thesis
      by (auto simp: set_walk_create_obj write_back_Walked simp del: set_walk.simps)
  next
    case (FNum i)
    with Nil obtain xs where doc: "doc = JArr xs" and "arr_get xs i = JUndefined"
      by (cases doc) simp_all
    then have "loose_undefined (arr_get xs i)" by (simp add: loose_undefined_def)
    with doc FNum show ?thesis
      by (auto simp: set_walk_create_arr write_back_Walked simp del: set_walk.simps)
  qed
next
  case (Cons p pre)
  let ?c = "get_step doc p"
  from Cons.prems have cf: "container_for step (get_walk ?c pre)"
    and un: "get_walk ?c (pre @ [step]) = JUndefined" by simp_all
  have on: "\<not> off_document ?c"
  proof
    assume "off_document ?c"
    then have "off_document (get_walk ?c pre)" by (rule off_document_walk)
    with cf show False by (cases "get_walk ?c pre"; cases step) simp_all
  qed
  then have nl: "\<not> loose_undefined ?c" using off_document_loose by blast
  have q: "pre @ step # nxt # rest \<noteq> []" by simp
  note ih = Cons.IH [OF cf un]
  from on consider (obj) m k where "doc = JObj m" "p = FStr k" "map_of m k = Some ?c"
    | (arr) xs i where "doc = JArr xs" "p = FNum i"
    using get_step_on_document by blast
  then show ?case
  proof cases
    case obj
    with nl q have "set_walk doc ((p # pre) @ step # nxt # rest) v =
        write_back (\<lambda>child. JObj (obj_set m k child)) (set_walk ?c (pre @ step # nxt # rest) v)"
      by (simp add: set_walk_descend_obj del: set_walk.simps)
    with ih obj show ?thesis
      by (auto simp: write_back_Walked simp del: set_walk.simps)
  next
    case arr
    with nl q have "set_walk doc ((p # pre) @ step # nxt # rest) v =
        write_back (\<lambda>child. JArr (arr_set xs i child)) (set_walk ?c (pre @ step # nxt # rest) v)"
      by (simp add: set_walk_descend_arr del: set_walk.simps)
    with ih arr show ?thesis
      by (auto simp: write_back_Walked simp del: set_walk.simps)
  qed
qed

lemma get_walk_spec_resolve:
  "list_all plain_step frs \<Longrightarrow>
   get_walk val frs = (case spec_resolve val frs of None \<Rightarrow> JUndefined | Some x \<Rightarrow> x)"
proof (induction frs arbitrary: val)
  case Nil
  then show ?case by simp
next
  case (Cons p frs)
  from Cons.prems have pl: "list_all plain_step frs" by simp
  note ih = Cons.IH [OF pl]
  show ?case
  proof (cases p)
    case (FStr k)
    with Cons.prems have k: "k \<notin> set inherited_names" by simp
    show ?thesis
    proof (cases val)
      case (JObj m)
      show ?thesis
      proof (cases "map_of m k")
        case None
        with JObj FStr k show ?thesis by (simp add: plain_obj_get)
      next
        case (Some c)
        with JObj FStr ih [of c] show ?thesis by (simp add: obj_get_own)
      qed
    next
      case JObjectPrototype
      with FStr k show ?thesis by (simp add: plain_proto_get)
    qed (simp_all add: FStr)
  next
    case (FNum i)
    show ?thesis
    proof (cases val)
      case (JArr xs)
      with FNum ih [of "xs ! i"] show ?thesis by (simp add: arr_get_def)
    qed (simp_all add: FNum)
  qed
qed

section \<open>Staying in the document\<close>

lemma is_document_own: "is_document (JObj m) \<Longrightarrow> map_of m k = Some c \<Longrightarrow> is_document c"
proof -
  assume a: "is_document (JObj m)" "map_of m k = Some c"
  then have "(k, c) \<in> set m" by (simp add: map_of_SomeD)
  then have "c \<in> set (map snd m)" by force
  with a(1) show ?thesis by (auto simp: list_all_iff)
qed

lemma is_document_element: "is_document (JArr xs) \<Longrightarrow> is_document (arr_get xs i)"
  by (simp add: arr_get_def list_all_iff)

lemma is_document_fresh [simp]: "is_document (fresh_container f)"
  by (cases f) simp_all

text \<open>
  In a document, a set along a path that has no step \<^verbatim>\<open>__proto__\<close> assigns own properties
  and elements only.
\<close>

lemma set_walk_stays:
  "is_document val \<or> (\<exists>f. val = JFunction f) \<Longrightarrow> FStr ''__proto__'' \<notin> set frs \<Longrightarrow>
   \<exists>res d. set_walk val frs v = Walked res d"
proof (induction val frs v rule: set_walk.induct)
  case (3 m k nxt rest newValue)
  define m1 where "m1 = (if loose_undefined (obj_get m k) then obj_set m k (fresh_container nxt) else m)"
  from "3.prems" have doc: "is_document (JObj m)" and k: "k \<noteq> ''__proto__''"
    and np: "FStr ''__proto__'' \<notin> set (nxt # rest)" by auto
  have "is_document (obj_get m1 k) \<or> (\<exists>f. obj_get m1 k = JFunction f)"
  proof (cases "loose_undefined (obj_get m k)")
    case True
    then show ?thesis by (simp add: m1_def)
  next
    case False
    show ?thesis
    proof (cases "map_of m k")
      case None
      with k False show ?thesis
        by (auto simp: m1_def obj_get_def loose_undefined_def split: if_splits)
    next
      case (Some c)
      with doc False show ?thesis
        using is_document_own [of m k c] by (simp add: m1_def obj_get_own)
    qed
  qed
  from "3.IH" [OF m1_def this np] obtain res d where
    "set_walk (obj_get m1 k) (nxt # rest) newValue = Walked res d" by blast
  then show ?case by (simp add: Let_def m1_def [symmetric])
next
  case (7 xs i nxt rest newValue)
  define xs1 where "xs1 = (if loose_undefined (arr_get xs i) then arr_set xs i (fresh_container nxt) else xs)"
  from "7.prems" have doc: "is_document (JArr xs)"
    and np: "FStr ''__proto__'' \<notin> set (nxt # rest)" by auto
  have "is_document (arr_get xs1 i)"
    using doc is_document_element [of xs i] by (simp add: xs1_def)
  then have "is_document (arr_get xs1 i) \<or> (\<exists>f. arr_get xs1 i = JFunction f)" by simp
  from "7.IH" [OF xs1_def this np] obtain res d where
    "set_walk (arr_get xs1 i) (nxt # rest) newValue = Walked res d" by blast
  then show ?case by (simp add: Let_def xs1_def [symmetric])
qed auto

section \<open>Properties of the parser\<close>

lemmas parse_defs =
  parseJsonPath_def regex_match_def bracket_groups_def upto_last_def slice_inner_def
  is_line_terminator_def

lemmas walk_defs =
  obj_get_Nil loose_undefined_def function_names_def inherited_names_def proto_get_def

lemma takeWhile_after_dropWhile_nonempty:
  assumes "dropWhile (\<lambda>c. c = b) xs \<noteq> []"
  shows "takeWhile (\<lambda>c. c \<noteq> b) (dropWhile (\<lambda>c. c = b) xs) \<noteq> []"
proof -
  from assms obtain y ys where eq: "dropWhile (\<lambda>c. c = b) xs = y # ys"
    by (cases "dropWhile (\<lambda>c. c = b) xs") simp_all
  from assms have "\<not> (hd (dropWhile (\<lambda>c. c = b) xs) = b)"
    by (rule hd_dropWhile)
  with eq have "y \<noteq> b" by simp
  with eq show ?thesis by simp
qed

lemma regex_match_nonempty:
  assumes "regex_match fragment = Some (m1, m2)"
  shows "m1 \<noteq> []"
proof (cases "dropWhile (\<lambda>c. c = CHR ''['') fragment = []")
  case True
  with assms show ?thesis
    by (simp add: regex_match_def del: dropWhile_eq_Nil_conv)
next
  case False
  with assms have "m1 = takeWhile (\<lambda>c. c \<noteq> CHR ''['') (dropWhile (\<lambda>c. c = CHR ''['') fragment)"
    by (simp add: regex_match_def Let_def del: dropWhile_eq_Nil_conv)
  with False show ?thesis
    by (simp only: takeWhile_after_dropWhile_nonempty not_False_eq_True)
qed

lemma split_on_nonempty: "split_on sep acc s \<noteq> []"
  by (induction sep acc s rule: split_on.induct) auto

lemma parse_fragments_nonempty:
  "parse_fragments fragments result = Inr r \<Longrightarrow>
   fragments \<noteq> [] \<or> (\<exists>x\<in>set result. x \<noteq> []) \<Longrightarrow> \<exists>x\<in>set r. x \<noteq> []"
proof (induction fragments arbitrary: result)
  case Nil
  then show ?case by simp
next
  case (Cons fragment fragments)
  from Cons.prems(1) obtain m1 m2 where m: "regex_match fragment = Some (m1, m2)"
    by (auto split: option.splits)
  with Cons.prems(1) have "parse_fragments fragments
      (result @ [m1] @ (if m2 \<noteq> [] then split_on '']['' [] (slice_inner m2) else [])) = Inr r"
    by simp
  moreover have "m1 \<noteq> []" using m by (rule regex_match_nonempty)
  ultimately show ?case
    using Cons.IH by fastforce
qed

lemma parseJsonPath_nonempty: "parseJsonPath path = Inr fragments \<Longrightarrow> fragments \<noteq> []"
proof -
  assume a: "parseJsonPath path = Inr fragments"
  then obtain r where r: "parse_fragments (split_on ''.'' [] path) [] = Inr r"
    and f: "fragments = filter (\<lambda>fragment. fragment \<noteq> []) r"
    by (auto simp: parseJsonPath_def split: sum.splits)
  from r have "\<exists>x\<in>set r. x \<noteq> []"
    by (rule parse_fragments_nonempty) (simp add: split_on_nonempty)
  with f show ?thesis by (auto simp: filter_empty_conv)
qed

section \<open>Writing, then reading\<close>

text \<open>
  The claim C2 as written fails under the name \<^verbatim>\<open>__proto__\<close>: on \<^verbatim>\<open>{}\<close> the assignment of a
  string runs the inherited setter, which ignores it, the set returns \<^verbatim>\<open>Object.prototype\<close>
  and so succeeds, and the get returns \<^verbatim>\<open>Object.prototype\<close>, not the string.
\<close>

theorem set_then_get_proto_counterexample:
  "set_walk (JObj []) [FStr ''__proto__''] (JStr ''x'') = Walked JObjectPrototype (JObj [])
   \<and> get_walk (JObj []) [FStr ''__proto__''] = JObjectPrototype
   \<and> setValueFromPath (JObj []) ''__proto__'' (JStr ''x'') = Inr (Walked JObjectPrototype (JObj []))
   \<and> getValueFromPath (JObj []) ''__proto__'' = Inr JObjectPrototype"
  by (simp add: setValueFromPath_def getValueFromPath_def parse_defs walk_defs)

text \<open>
  Claim C2, as the code has it. Whenever a set with a non-empty path that has no step
  \<^verbatim>\<open>__proto__\<close> succeeds (returns something other than \<^verbatim>\<open>undefined\<close>), a get at the same path on
  the document after the set returns the value that was written. This holds for the walks
  over every sequence of key and index fragments, and for \<^verbatim>\<open>setValueFromPath\<close> and
  \<^verbatim>\<open>getValueFromPath\<close> on every path string (a path string that parses never gives an empty
  sequence).
\<close>

theorem set_then_get_roundtrip:
  "(FStr ''__proto__'' \<notin> set frs \<and> frs \<noteq> [] \<and> set_walk doc frs v = Walked res doc'
      \<and> res \<noteq> JUndefined
      \<longrightarrow> get_walk doc' frs = v)
   \<and> (parseJsonPath path = Inr fragments \<and> ''__proto__'' \<notin> set fragments
      \<and> setValueFromPath doc path v = Inr (Walked res doc') \<and> res \<noteq> JUndefined
      \<longrightarrow> getValueFromPath doc' path = Inr v)"
proof (intro conjI impI)
  assume "FStr ''__proto__'' \<notin> set frs \<and> frs \<noteq> [] \<and> set_walk doc frs v = Walked res doc'
      \<and> res \<noteq> JUndefined"
  then show "get_walk doc' frs = v"
    using set_walk_roundtrip [of frs doc v res doc'] by simp
next
  assume a: "parseJsonPath path = Inr fragments \<and> ''__proto__'' \<notin> set fragments
      \<and> setValueFromPath doc path v = Inr (Walked res doc') \<and> res \<noteq> JUndefined"
  then have pp: "parseJsonPath path = Inr fragments" and np: "''__proto__'' \<notin> set fragments"
    and sv: "setValueFromPath doc path v = Inr (Walked res doc')" and r: "res \<noteq> JUndefined"
    by simp_all
  from pp sv have s: "set_walk doc (map FStr fragments) v = Walked res doc'"
    by (simp add: setValueFromPath_def)
  from pp have n: "map FStr fragments \<noteq> []"
    using parseJsonPath_nonempty by simp
  from np have p: "FStr ''__proto__'' \<notin> set (map FStr fragments)" by auto
  have "get_walk doc' (map FStr fragments) = v"
    using set_walk_roundtrip [OF p n s r] .
  with pp show "getValueFromPath doc' path = Inr v"
    by (simp add: getValueFromPath_def)
qed

theorem set_then_get_roundtrip_witness:
  "FStr ''__proto__'' \<notin> set [FStr ''a'', FNum 1] \<and> [FStr ''a'', FNum 1] \<noteq> []
   \<and> set_walk (JObj []) [FStr ''a'', FNum 1] (JStr ''x'')
       = Walked (JStr ''x'') (JObj [(''a'', JArr [JUndefined, JStr ''x''])])
   \<and> JStr ''x'' \<noteq> JUndefined
   \<and> get_walk (JObj [(''a'', JArr [JUndefined, JStr ''x''])]) [FStr ''a'', FNum 1] = JStr ''x''
   \<and> parseJsonPath ''a.toString'' = Inr [''a'', ''toString'']
   \<and> ''__proto__'' \<notin> set [''a'', ''toString'']
   \<and> setValueFromPath (JObj []) ''a.toString'' (JStr ''x'')
       = Inr (Walked (JStr ''x'') (JObj [(''a'', JObj [(''toString'', JStr ''x'')])]))
   \<and> getValueFromPath (JObj [(''a'', JObj [(''toString'', JStr ''x'')])]) ''a.toString''
       = Inr (JStr ''x'')"
proof -
  have w: "set_walk (JObj []) [FStr ''a'', FNum 1] (JStr ''x'')
             = Walked (JStr ''x'') (JObj [(''a'', JArr [JUndefined, JStr ''x''])])"
    by (simp add: walk_defs arr_set_def)
  have q: "parseJsonPath ''a.toString'' = Inr [''a'', ''toString'']"
    by (simp add: parse_defs)
  have p: "setValueFromPath (JObj []) ''a.toString'' (JStr ''x'')
             = Inr (Walked (JStr ''x'') (JObj [(''a'', JObj [(''toString'', JStr ''x'')])]))"
    by (simp add: setValueFromPath_def q walk_defs)
  show ?thesis
    using w q p
      set_then_get_roundtrip [where frs = "[FStr ''a'', FNum 1]" and doc = "JObj []"
        and v = "JStr ''x''" and res = "JStr ''x''"
        and doc' = "JObj [(''a'', JArr [JUndefined, JStr ''x''])]"]
      set_then_get_roundtrip [where path = "''a.toString''" and fragments = "[''a'', ''toString'']"
        and doc = "JObj []" and v = "JStr ''x''" and res = "JStr ''x''"
        and doc' = "JObj [(''a'', JObj [(''toString'', JStr ''x'')])]"]
    by simp
qed

section \<open>Failure, creation and kinds\<close>

text \<open>
  The claim C3 as written fails in two ways. A \<^verbatim>\<open>null\<close> is present and is no container, yet
  the set does not return \<^verbatim>\<open>undefined\<close>: it replaces the \<^verbatim>\<open>null\<close>. And a set can return
  \<^verbatim>\<open>undefined\<close> after it has written: on \<^verbatim>\<open>{}\<close> the path \<^verbatim>\<open>a.constructor.x\<close> creates \<^verbatim>\<open>a\<close>, reads
  the inherited function under \<^verbatim>\<open>constructor\<close> and stops there.
\<close>

theorem set_effect_counterexample:
  "set_walk (JObj [(''a'', JNull)]) [FStr ''a'', FStr ''b''] (JNum (NFinite 5))
     = Walked (JNum (NFinite 5)) (JObj [(''a'', JObj [(''b'', JNum (NFinite 5))])])
   \<and> set_walk (JObj []) [FStr ''a'', FStr ''constructor'', FStr ''x''] (JNum (NFinite 5))
       = Walked JUndefined (JObj [(''a'', JObj [])])
   \<and> setValueFromPath (JObj []) ''a.constructor.x'' (JNum (NFinite 5))
       = Inr (Walked JUndefined (JObj [(''a'', JObj [])]))"
  by (simp add: setValueFromPath_def parse_defs walk_defs)

text \<open>
  Claim C3, as the code has it. A boolean, a number or a string met where the walk of a
  set still has a step to take makes the set return \<^verbatim>\<open>undefined\<close> with the document as it
  was. And on a path none of whose steps names a property of \<^verbatim>\<open>Object.prototype\<close>, a set
  of a JSON value that returns \<^verbatim>\<open>undefined\<close> leaves the document as it was. In particular
  for \<^verbatim>\<open>{a: 1}\<close> and the path \<^verbatim>\<open>a.b\<close>.
\<close>

theorem set_blocked_is_effect_free:
  "(is_scalar (get_walk doc pre) \<and> rest \<noteq> [] \<longrightarrow>
      set_walk doc (pre @ rest) v = Walked JUndefined doc)
   \<and> (v \<noteq> JUndefined \<and> list_all plain_step frs \<and> set_walk doc frs v = Walked JUndefined doc'
      \<longrightarrow> doc' = doc)
   \<and> (v \<noteq> JUndefined \<and> parseJsonPath path = Inr fragments
       \<and> list_all plain_step (map FStr fragments)
       \<and> setValueFromPath doc path v = Inr (Walked JUndefined doc')
      \<longrightarrow> doc' = doc)
   \<and> set_walk (JObj [(''a'', JNum (NFinite 1))]) [FStr ''a'', FStr ''b''] (JNum (NFinite 5))
       = Walked JUndefined (JObj [(''a'', JNum (NFinite 1))])
   \<and> setValueFromPath (JObj [(''a'', JNum (NFinite 1))]) ''a.b'' (JNum (NFinite 5))
       = Inr (Walked JUndefined (JObj [(''a'', JNum (NFinite 1))]))"
proof (intro conjI impI)
  assume "is_scalar (get_walk doc pre) \<and> rest \<noteq> []"
  then show "set_walk doc (pre @ rest) v = Walked JUndefined doc"
    by (simp add: set_walk_scalar_blocks)
next
  assume "v \<noteq> JUndefined \<and> list_all plain_step frs \<and> set_walk doc frs v = Walked JUndefined doc'"
  then show "doc' = doc"
    using set_walk_failure_unchanged [of v frs doc doc'] by simp
next
  assume a: "v \<noteq> JUndefined \<and> parseJsonPath path = Inr fragments
       \<and> list_all plain_step (map FStr fragments)
       \<and> setValueFromPath doc path v = Inr (Walked JUndefined doc')"
  then have v: "v \<noteq> JUndefined" and pp: "parseJsonPath path = Inr fragments"
    and pl: "list_all plain_step (map FStr fragments)"
    and sv: "setValueFromPath doc path v = Inr (Walked JUndefined doc')"
    by simp_all
  from pp sv have "set_walk doc (map FStr fragments) v = Walked JUndefined doc'"
    by (simp add: setValueFromPath_def)
  then show "doc' = doc"
    using set_walk_failure_unchanged [OF v pl] by simp
next
  show "set_walk (JObj [(''a'', JNum (NFinite 1))]) [FStr ''a'', FStr ''b''] (JNum (NFinite 5))
          = Walked JUndefined (JObj [(''a'', JNum (NFinite 1))])"
    by (simp add: walk_defs)
next
  show "setValueFromPath (JObj [(''a'', JNum (NFinite 1))]) ''a.b'' (JNum (NFinite 5))
          = Inr (Walked JUndefined (JObj [(''a'', JNum (NFinite 1))]))"
    by (simp add: setValueFromPath_def parse_defs walk_defs)
qed

theorem set_blocked_is_effect_free_witness:
  "is_scalar (get_walk (JObj [(''a'', JStr ''s'')]) [FStr ''a'']) \<and> [FNum 0] \<noteq> []
   \<and> set_walk (JObj [(''a'', JStr ''s'')]) ([FStr ''a''] @ [FNum 0]) JNull
       = Walked JUndefined (JObj [(''a'', JStr ''s'')])
   \<and> JBool True \<noteq> JUndefined
   \<and> list_all plain_step [FStr ''a'', FStr ''b'']
   \<and> set_walk (JObj [(''a'', JArr [])]) [FStr ''a'', FStr ''b''] (JBool True)
       = Walked JUndefined (JObj [(''a'', JArr [])])
   \<and> parseJsonPath ''a.b'' = Inr [''a'', ''b'']
   \<and> list_all plain_step (map FStr [''a'', ''b''])
   \<and> setValueFromPath (JObj [(''a'', JArr [])]) ''a.b'' (JBool True)
       = Inr (Walked JUndefined (JObj [(''a'', JArr [])]))"
proof -
  have s: "is_scalar (get_walk (JObj [(''a'', JStr ''s'')]) [FStr ''a''])"
    by simp
  have l: "list_all plain_step [FStr ''a'', FStr ''b'']"
    by (simp add: walk_defs)
  have f: "set_walk (JObj [(''a'', JArr [])]) [FStr ''a'', FStr ''b''] (JBool True)
             = Walked JUndefined (JObj [(''a'', JArr [])])"
    by (simp add: walk_defs)
  have q: "parseJsonPath ''a.b'' = Inr [''a'', ''b'']"
    by (simp add: parse_defs)
  have p: "setValueFromPath (JObj [(''a'', JArr [])]) ''a.b'' (JBool True)
             = Inr (Walked JUndefined (JObj [(''a'', JArr [])]))"
    by (simp add: setValueFromPath_def q walk_defs)
  show ?thesis
    using s l f q p
      set_blocked_is_effect_free [where doc = "JObj [(''a'', JStr ''s'')]" and pre = "[FStr ''a'']"
        and rest = "[FNum 0]" and v = JNull]
      set_blocked_is_effect_free [where doc = "JObj [(''a'', JArr [])]"
        and frs = "[FStr ''a'', FStr ''b'']" and v = "JBool True" and path = "''a.b''"
        and fragments = "[''a'', ''b'']" and doc' = "JObj [(''a'', JArr [])]"]
    by simp
qed

text \<open>
  The claim C4 as written fails where the slot is empty in the document but the name is
  inherited: \<^verbatim>\<open>{}\<close> has no entry \<^verbatim>\<open>constructor\<close>, yet the set along \<^verbatim>\<open>constructor.x\<close> reads the
  inherited function, creates nothing and returns \<^verbatim>\<open>undefined\<close>.
\<close>

theorem set_inherited_slot_counterexample:
  "spec_resolve (JObj []) [FStr ''constructor''] = None
   \<and> set_walk (JObj []) [FStr ''constructor'', FStr ''x''] (JNum (NFinite 5))
       = Walked JUndefined (JObj [])
   \<and> setValueFromPath (JObj []) ''constructor.x'' (JNum (NFinite 5))
       = Inr (Walked JUndefined (JObj []))"
  by (simp add: setValueFromPath_def parse_defs walk_defs)

text \<open>
  Claim C4, as the code has it. When the walk of a set reaches a step that is not the last
  and whose slot reads \<^verbatim>\<open>undefined\<close> (nothing is there and, on an object, the name is not
  inherited from \<^verbatim>\<open>Object.prototype\<close>), the set goes on as it would in an empty container of
  the kind the next fragment asks for, an empty array for a number, an empty object for a
  string, and the slot afterwards holds that container with what the rest of the walk made
  of it. The rest of the walk succeeds when none of its steps names a property of
  \<^verbatim>\<open>Object.prototype\<close>. In particular \<^verbatim>\<open>{}\<close> with the path \<^verbatim>\<open>a.b\<close> and the value 5 becomes
  \<^verbatim>\<open>{a: {b: 5}}\<close>.
\<close>

theorem set_materializes_by_lookahead:
  "(container_for step (get_walk doc pre) \<and> get_walk doc (pre @ [step]) = JUndefined
      \<and> set_walk (JArr []) (FNum j # rest) v = Walked r c \<longrightarrow>
      (\<exists>d ys. set_walk doc (pre @ step # FNum j # rest) v = Walked r d
         \<and> get_walk d (pre @ [step]) = c \<and> c = JArr ys))
   \<and> (container_for step (get_walk doc pre) \<and> get_walk doc (pre @ [step]) = JUndefined
      \<and> set_walk (JObj []) (FStr k # rest) v = Walked r c \<longrightarrow>
      (\<exists>d m. set_walk doc (pre @ step # FStr k # rest) v = Walked r d
         \<and> get_walk d (pre @ [step]) = c \<and> c = JObj m))
   \<and> (list_all plain_step (nxt # rest) \<longrightarrow>
      (\<exists>c. set_walk (fresh_container nxt) (nxt # rest) v = Walked v c))
   \<and> set_walk (JObj []) [FStr ''a'', FStr ''b''] (JNum (NFinite 5))
       = Walked (JNum (NFinite 5)) (JObj [(''a'', JObj [(''b'', JNum (NFinite 5))])])
   \<and> set_walk (JObj []) [FStr ''a'', FNum 0] (JNum (NFinite 5))
       = Walked (JNum (NFinite 5)) (JObj [(''a'', JArr [JNum (NFinite 5)])])
   \<and> setValueFromPath (JObj []) ''a.b'' (JNum (NFinite 5))
       = Inr (Walked (JNum (NFinite 5)) (JObj [(''a'', JObj [(''b'', JNum (NFinite 5))])]))"
proof (intro conjI impI)
  assume a: "container_for step (get_walk doc pre) \<and> get_walk doc (pre @ [step]) = JUndefined
      \<and> set_walk (JArr []) (FNum j # rest) v = Walked r c"
  then have cf: "container_for step (get_walk doc pre)"
    and un: "get_walk doc (pre @ [step]) = JUndefined"
    and w: "set_walk (fresh_container (FNum j)) (FNum j # rest) v = Walked r c"
    by simp_all
  from set_walk_materializes [OF cf un, of "FNum j" rest v] w obtain d where
    "set_walk doc (pre @ step # FNum j # rest) v = Walked r d" "get_walk d (pre @ [step]) = c"
    by blast
  moreover from a obtain ys where "c = JArr ys"
    using set_walk_keeps_array by blast
  ultimately show "\<exists>d ys. set_walk doc (pre @ step # FNum j # rest) v = Walked r d
         \<and> get_walk d (pre @ [step]) = c \<and> c = JArr ys"
    by blast
next
  assume a: "container_for step (get_walk doc pre) \<and> get_walk doc (pre @ [step]) = JUndefined
      \<and> set_walk (JObj []) (FStr k # rest) v = Walked r c"
  then have cf: "container_for step (get_walk doc pre)"
    and un: "get_walk doc (pre @ [step]) = JUndefined"
    and w: "set_walk (fresh_container (FStr k)) (FStr k # rest) v = Walked r c"
    by simp_all
  from set_walk_materializes [OF cf un, of "FStr k" rest v] w obtain d where
    "set_walk doc (pre @ step # FStr k # rest) v = Walked r d" "get_walk d (pre @ [step]) = c"
    by blast
  moreover from a obtain m where "c = JObj m"
    using set_walk_keeps_object by blast
  ultimately show "\<exists>d m. set_walk doc (pre @ step # FStr k # rest) v = Walked r d
         \<and> get_walk d (pre @ [step]) = c \<and> c = JObj m"
    by blast
next
  assume "list_all plain_step (nxt # rest)"
  then show "\<exists>c. set_walk (fresh_container nxt) (nxt # rest) v = Walked v c"
    by (rule set_walk_fresh)
next
  show "set_walk (JObj []) [FStr ''a'', FStr ''b''] (JNum (NFinite 5))
       = Walked (JNum (NFinite 5)) (JObj [(''a'', JObj [(''b'', JNum (NFinite 5))])])"
    by (simp add: walk_defs)
next
  show "set_walk (JObj []) [FStr ''a'', FNum 0] (JNum (NFinite 5))
       = Walked (JNum (NFinite 5)) (JObj [(''a'', JArr [JNum (NFinite 5)])])"
    by (simp add: walk_defs arr_set_def)
next
  show "setValueFromPath (JObj []) ''a.b'' (JNum (NFinite 5))
       = Inr (Walked (JNum (NFinite 5)) (JObj [(''a'', JObj [(''b'', JNum (NFinite 5))])]))"
    by (simp add: setValueFromPath_def parse_defs walk_defs)
qed

theorem set_materializes_by_lookahead_witness:
  "container_for (FStr ''b'') (get_walk (JObj [(''a'', JObj [])]) [FStr ''a''])
   \<and> get_walk (JObj [(''a'', JObj [])]) ([FStr ''a''] @ [FStr ''b'']) = JUndefined
   \<and> set_walk (JArr []) (FNum 1 # [FStr ''constructor'', FStr ''x'']) JNull
       = Walked JUndefined (JArr [JUndefined, JObj []])
   \<and> set_walk (JObj [(''a'', JObj [])])
        ([FStr ''a''] @ FStr ''b'' # FNum 1 # [FStr ''constructor'', FStr ''x'']) JNull
       = Walked JUndefined (JObj [(''a'', JObj [(''b'', JArr [JUndefined, JObj []])])])
   \<and> set_walk (JObj []) (FStr ''c'' # []) JNull = Walked JNull (JObj [(''c'', JNull)])
   \<and> set_walk (JObj [(''a'', JObj [])]) ([FStr ''a''] @ FStr ''b'' # FStr ''c'' # []) JNull
       = Walked JNull (JObj [(''a'', JObj [(''b'', JObj [(''c'', JNull)])])])
   \<and> list_all plain_step (FNum 1 # [FStr ''c''])
   \<and> set_walk (fresh_container (FNum 1)) (FNum 1 # [FStr ''c'']) JNull
       = Walked JNull (JArr [JUndefined, JObj [(''c'', JNull)]])"
proof -
  have c: "container_for (FStr ''b'') (get_walk (JObj [(''a'', JObj [])]) [FStr ''a''])"
    by simp
  have u: "get_walk (JObj [(''a'', JObj [])]) ([FStr ''a''] @ [FStr ''b'']) = JUndefined"
    by (simp add: walk_defs)
  have r1: "set_walk (JArr []) (FNum 1 # [FStr ''constructor'', FStr ''x'']) JNull
       = Walked JUndefined (JArr [JUndefined, JObj []])"
    by (simp add: walk_defs arr_set_def arr_get_def)
  have r2: "set_walk (JObj []) (FStr ''c'' # []) JNull = Walked JNull (JObj [(''c'', JNull)])"
    by simp
  have l: "list_all plain_step (FNum 1 # [FStr ''c''])"
    by (simp add: walk_defs)
  have e1: "set_walk (JObj [(''a'', JObj [])])
        ([FStr ''a''] @ FStr ''b'' # FNum 1 # [FStr ''constructor'', FStr ''x'']) JNull
       = Walked JUndefined (JObj [(''a'', JObj [(''b'', JArr [JUndefined, JObj []])])])"
    by (simp add: walk_defs arr_set_def arr_get_def)
  have e2: "set_walk (JObj [(''a'', JObj [])]) ([FStr ''a''] @ FStr ''b'' # FStr ''c'' # []) JNull
       = Walked JNull (JObj [(''a'', JObj [(''b'', JObj [(''c'', JNull)])])])"
    by (simp add: walk_defs)
  have e3: "set_walk (fresh_container (FNum 1)) (FNum 1 # [FStr ''c'']) JNull
       = Walked JNull (JArr [JUndefined, JObj [(''c'', JNull)]])"
    by (simp add: walk_defs arr_set_def arr_get_def)
  show ?thesis
    using c u r1 r2 l e1 e2 e3
      set_materializes_by_lookahead [where doc = "JObj [(''a'', JObj [])]" and pre = "[FStr ''a'']"
        and step = "FStr ''b''" and j = 1 and rest = "[FStr ''constructor'', FStr ''x'']"
        and v = JNull and r = JUndefined and c = "JArr [JUndefined, JObj []]"]
      set_materializes_by_lookahead [where doc = "JObj [(''a'', JObj [])]" and pre = "[FStr ''a'']"
        and step = "FStr ''b''" and k = "''c''" and rest = "[]"
        and v = JNull and r = JNull and c = "JObj [(''c'', JNull)]"]
      set_materializes_by_lookahead [where nxt = "FNum 1" and rest = "[FStr ''c'']" and v = JNull]
    by (simp del: set_walk.simps get_walk_Cons)
qed

text \<open>
  Claim C10. A set whose step through a key is not the last one and finds \<^verbatim>\<open>null\<close> under
  the key puts a fresh empty container in its place and goes on in it: the result is what
  the rest of the walk returns on the fresh container, and the key afterwards holds the
  container with what the rest of the walk made of it. When no later step names a property
  of \<^verbatim>\<open>Object.prototype\<close> the set succeeds. A get along the same path on the original
  document returns \<^verbatim>\<open>undefined\<close>.
\<close>

theorem set_replaces_null:
  "(map_of m k = Some JNull \<longrightarrow>
      set_walk (JObj m) (FStr k # nxt # rest) v
        = write_back (\<lambda>child. JObj (obj_set m k child))
            (set_walk (fresh_container nxt) (nxt # rest) v)
      \<and> get_walk (JObj m) (FStr k # nxt # rest) = JUndefined)
   \<and> (map_of m k = Some JNull \<and> list_all plain_step (nxt # rest) \<longrightarrow>
      (\<exists>c. set_walk (JObj m) (FStr k # nxt # rest) v = Walked v (JObj (obj_set m k c))))
   \<and> set_walk (JObj [(''a'', JNull)]) [FStr ''a'', FStr ''b''] (JNum (NFinite 5))
       = Walked (JNum (NFinite 5)) (JObj [(''a'', JObj [(''b'', JNum (NFinite 5))])])
   \<and> get_walk (JObj [(''a'', JNull)]) [FStr ''a'', FStr ''b''] = JUndefined
   \<and> setValueFromPath (JObj [(''a'', JNull)]) ''a.b'' (JNum (NFinite 5))
       = Inr (Walked (JNum (NFinite 5)) (JObj [(''a'', JObj [(''b'', JNum (NFinite 5))])]))
   \<and> getValueFromPath (JObj [(''a'', JNull)]) ''a.b'' = Inr JUndefined"
proof (intro conjI impI)
  assume a: "map_of m k = Some JNull"
  then have g: "obj_get m k = JNull" by (rule obj_get_own)
  then show "set_walk (JObj m) (FStr k # nxt # rest) v
        = write_back (\<lambda>child. JObj (obj_set m k child))
            (set_walk (fresh_container nxt) (nxt # rest) v)"
    by (simp add: set_walk_create_obj loose_undefined_def del: set_walk.simps)
  from g show "get_walk (JObj m) (FStr k # nxt # rest) = JUndefined"
    by simp
next
  assume a: "map_of m k = Some JNull \<and> list_all plain_step (nxt # rest)"
  then have "obj_get m k = JNull" by (simp add: obj_get_own)
  then have e: "set_walk (JObj m) (FStr k # nxt # rest) v
        = write_back (\<lambda>child. JObj (obj_set m k child))
            (set_walk (fresh_container nxt) (nxt # rest) v)"
    by (simp add: set_walk_create_obj loose_undefined_def del: set_walk.simps)
  from a obtain c where "set_walk (fresh_container nxt) (nxt # rest) v = Walked v c"
    using set_walk_fresh by blast
  with e show "\<exists>c. set_walk (JObj m) (FStr k # nxt # rest) v = Walked v (JObj (obj_set m k c))"
    by (auto simp del: set_walk.simps)
next
  show "set_walk (JObj [(''a'', JNull)]) [FStr ''a'', FStr ''b''] (JNum (NFinite 5))
       = Walked (JNum (NFinite 5)) (JObj [(''a'', JObj [(''b'', JNum (NFinite 5))])])"
    by (simp add: walk_defs)
next
  show "get_walk (JObj [(''a'', JNull)]) [FStr ''a'', FStr ''b''] = JUndefined"
    by simp
next
  show "setValueFromPath (JObj [(''a'', JNull)]) ''a.b'' (JNum (NFinite 5))
       = Inr (Walked (JNum (NFinite 5)) (JObj [(''a'', JObj [(''b'', JNum (NFinite 5))])]))"
    by (simp add: setValueFromPath_def parse_defs walk_defs)
next
  show "getValueFromPath (JObj [(''a'', JNull)]) ''a.b'' = Inr JUndefined"
    by (simp add: getValueFromPath_def parse_defs)
qed

theorem set_replaces_null_witness:
  "map_of [(''x'', JBool True), (''n'', JNull)] ''n'' = Some JNull
   \<and> set_walk (fresh_container (FStr ''constructor'')) (FStr ''constructor'' # [FStr ''y'']) (JStr ''v'')
       = Walked JUndefined (JObj [])
   \<and> set_walk (JObj [(''x'', JBool True), (''n'', JNull)])
        (FStr ''n'' # FStr ''constructor'' # [FStr ''y'']) (JStr ''v'')
       = Walked JUndefined (JObj [(''x'', JBool True), (''n'', JObj [])])
   \<and> get_walk (JObj [(''x'', JBool True), (''n'', JNull)])
        (FStr ''n'' # FStr ''constructor'' # [FStr ''y'']) = JUndefined
   \<and> list_all plain_step (FNum 0 # [])
   \<and> set_walk (JObj [(''x'', JBool True), (''n'', JNull)]) (FStr ''n'' # FNum 0 # []) (JStr ''v'')
       = Walked (JStr ''v'') (JObj [(''x'', JBool True), (''n'', JArr [JStr ''v''])])"
proof -
  have h: "map_of [(''x'', JBool True), (''n'', JNull)] ''n'' = Some JNull"
    by simp
  have r: "set_walk (fresh_container (FStr ''constructor'')) (FStr ''constructor'' # [FStr ''y'']) (JStr ''v'')
       = Walked JUndefined (JObj [])"
    by (simp add: walk_defs)
  have s: "obj_set [(''x'', JBool True), (''n'', w)] ''n'' c
       = [(''x'', JBool True), (''n'', c)]" for w c
    by (simp add: obj_set_def)
  have l: "list_all plain_step (FNum 0 # [])"
    by simp
  have e: "set_walk (JObj [(''x'', JBool True), (''n'', JNull)]) (FStr ''n'' # FNum 0 # []) (JStr ''v'')
       = Walked (JStr ''v'') (JObj [(''x'', JBool True), (''n'', JArr [JStr ''v''])])"
    by (simp add: walk_defs s arr_set_def)
  show ?thesis
    using h r s l e
      set_replaces_null [where m = "[(''x'', JBool True), (''n'', JNull)]" and k = "''n''"
        and nxt = "FStr ''constructor''" and rest = "[FStr ''y'']" and v = "JStr ''v''"]
      set_replaces_null [where m = "[(''x'', JBool True), (''n'', JNull)]" and k = "''n''"
        and nxt = "FNum 0" and rest = "[]" and v = "JStr ''v''"]
    by (simp del: set_walk.simps get_walk_Cons)
qed

text \<open>
  Claim C6. A get that meets an array where its next fragment is a string, or an object
  where its next fragment is a number, returns \<^verbatim>\<open>undefined\<close>, wherever on the path this
  happens. In particular for \<^verbatim>\<open>{a: [1, 2]}\<close> and the path \<^verbatim>\<open>a.b\<close>.
\<close>

theorem get_kind_mismatch:
  "(get_walk doc pre = JArr xs \<longrightarrow> get_walk doc (pre @ FStr k # rest) = JUndefined)
   \<and> (get_walk doc pre = JObj m \<longrightarrow> get_walk doc (pre @ FNum i # rest) = JUndefined)
   \<and> get_walk (JObj [(''a'', JArr [JNum (NFinite 1), JNum (NFinite 2)])]) [FStr ''a'', FStr ''b'']
       = JUndefined
   \<and> getValueFromPath (JObj [(''a'', JArr [JNum (NFinite 1), JNum (NFinite 2)])]) ''a.b''
       = Inr JUndefined"
proof (intro conjI impI)
  assume "get_walk doc pre = JArr xs"
  then show "get_walk doc (pre @ FStr k # rest) = JUndefined"
    by (simp add: get_walk_append)
next
  assume "get_walk doc pre = JObj m"
  then show "get_walk doc (pre @ FNum i # rest) = JUndefined"
    by (simp add: get_walk_append)
next
  show "get_walk (JObj [(''a'', JArr [JNum (NFinite 1), JNum (NFinite 2)])]) [FStr ''a'', FStr ''b'']
       = JUndefined"
    by simp
next
  show "getValueFromPath (JObj [(''a'', JArr [JNum (NFinite 1), JNum (NFinite 2)])]) ''a.b''
       = Inr JUndefined"
    by (simp add: getValueFromPath_def parse_defs)
qed

theorem get_kind_mismatch_witness:
  "get_walk (JObj [(''a'', JArr [JNull])]) [FStr ''a''] = JArr [JNull]
   \<and> get_walk (JObj [(''a'', JArr [JNull])]) ([FStr ''a''] @ FStr ''length'' # []) = JUndefined
   \<and> get_walk (JArr [JObj [(''0'', JNull)]]) [FNum 0] = JObj [(''0'', JNull)]
   \<and> get_walk (JArr [JObj [(''0'', JNull)]]) ([FNum 0] @ FNum 0 # [FStr ''x'']) = JUndefined"
proof -
  have a: "get_walk (JObj [(''a'', JArr [JNull])]) [FStr ''a''] = JArr [JNull]"
    by simp
  have b: "get_walk (JArr [JObj [(''0'', JNull)]]) [FNum 0] = JObj [(''0'', JNull)]"
    by (simp add: arr_get_def)
  show ?thesis
    using a b
      get_kind_mismatch [where doc = "JObj [(''a'', JArr [JNull])]" and pre = "[FStr ''a'']"
        and xs = "[JNull]" and k = "''length''" and rest = "[]"]
      get_kind_mismatch [where doc = "JArr [JObj [(''0'', JNull)]]" and pre = "[FNum 0]"
        and m = "[(''0'', JNull)]" and i = 0 and rest = "[FStr ''x'']"]
    by (simp del: get_walk_Cons)
qed

section \<open>The empty path and paths that do not resolve\<close>

text \<open>
  The claim C5 as written fails at the empty path string: it splits into one empty
  fragment, which the regular expression does not match. It also fails at a name that is
  inherited: \<^verbatim>\<open>{}\<close> has no entry \<^verbatim>\<open>constructor\<close>, yet the get returns the inherited function.
\<close>

theorem parse_empty_path_raises:
  "parseJsonPath '''' = Inl InvalidJsonPath
   \<and> spec_resolve (JObj []) [FStr ''constructor''] = None
   \<and> get_walk (JObj []) [FStr ''constructor''] = JFunction ''constructor''
   \<and> getValueFromPath (JObj []) ''constructor'' = Inr (JFunction ''constructor'')"
  by (simp add: getValueFromPath_def parse_defs walk_defs)

text \<open>
  Claim C5, as the code has it. \<^verbatim>\<open>parseJsonPath\<close> raises its error on the empty string, and
  so does \<^verbatim>\<open>getValueFromPath\<close>. The walk of a get over no fragments returns the root
  unchanged; the walk raises nothing, and over fragments that cannot be fully resolved and
  do not name a property of \<^verbatim>\<open>Object.prototype\<close> it returns \<^verbatim>\<open>undefined\<close>.
  \<^verbatim>\<open>getValueFromPath\<close> raises exactly when \<^verbatim>\<open>parseJsonPath\<close> raises on its path string.
\<close>

theorem get_empty_and_unresolved:
  "parseJsonPath '''' = Inl InvalidJsonPath
   \<and> getValueFromPath doc '''' = Inl InvalidJsonPath
   \<and> get_walk doc [] = doc
   \<and> (list_all plain_step frs \<and> spec_resolve doc frs = None \<longrightarrow> get_walk doc frs = JUndefined)
   \<and> (getValueFromPath doc path = Inl e \<longleftrightarrow> parseJsonPath path = Inl e)"
proof (intro conjI impI)
  show "parseJsonPath '''' = Inl InvalidJsonPath"
    by (simp add: parse_defs)
  show "getValueFromPath doc '''' = Inl InvalidJsonPath"
    by (simp add: getValueFromPath_def parse_defs)
  show "get_walk doc [] = doc"
    by simp
  show "get_walk doc frs = JUndefined" if "list_all plain_step frs \<and> spec_resolve doc frs = None"
    using that by (simp add: get_walk_spec_resolve)
  show "getValueFromPath doc path = Inl e \<longleftrightarrow> parseJsonPath path = Inl e"
    by (simp add: getValueFromPath_def split: sum.splits)
qed

theorem get_empty_and_unresolved_witness:
  "list_all plain_step [FStr ''a'', FStr ''b'']
   \<and> spec_resolve (JObj [(''a'', JNum (NFinite 1))]) [FStr ''a'', FStr ''b''] = None
   \<and> get_walk (JObj [(''a'', JNum (NFinite 1))]) [FStr ''a'', FStr ''b''] = JUndefined"
proof -
  have l: "list_all plain_step [FStr ''a'', FStr ''b'']"
    by (simp add: walk_defs)
  have n: "spec_resolve (JObj [(''a'', JNum (NFinite 1))]) [FStr ''a'', FStr ''b''] = None"
    by simp
  show ?thesis
    using l n get_empty_and_unresolved [where doc = "JObj [(''a'', JNum (NFinite 1))]"
        and frs = "[FStr ''a'', FStr ''b'']"]
    by (simp del: get_walk_Cons)
qed

section \<open>The parser on well-formed paths\<close>

lemma split_on_plain: "c \<notin> set x \<Longrightarrow> split_on (c # sep') acc x = [acc @ x]"
  by (induction x arbitrary: acc) auto

lemma split_on_at_sep:
  "c \<notin> set x \<Longrightarrow>
   split_on (c # sep') acc (x @ (c # sep') @ rest) = (acc @ x) # split_on (c # sep') [] rest"
  by (induction x arbitrary: acc) auto

lemma split_on_join:
  "xs \<noteq> [] \<Longrightarrow> \<forall>x\<in>set xs. c \<notin> set x \<Longrightarrow>
   split_on (c # sep') acc (join (c # sep') xs) = (acc @ hd xs) # tl xs"
proof (induction "c # sep'" xs arbitrary: acc rule: join.induct)
  case 1
  then show ?case by simp
next
  case (2 x)
  then show ?case by (simp add: split_on_plain)
next
  case (3 x y ys)
  from 3 have "split_on (c # sep') [] (join (c # sep') (y # ys)) = y # ys"
    by simp
  with 3 show ?case
    using split_on_at_sep [of c x sep' acc "join (c # sep') (y # ys)"] by simp
qed

lemma bracketed_Nil [simp]: "bracketed [] = []"
  by (simp add: bracketed_def)

lemma bracketed_Cons [simp]: "bracketed (i # is) = CHR ''['' # i @ CHR '']'' # bracketed is"
  by (simp add: bracketed_def)

lemma bracket_not_line_terminator [simp]:
  "\<not> is_line_terminator (CHR ''['')" "\<not> is_line_terminator (CHR '']'')"
  by (simp_all add: is_line_terminator_def)

lemma valid_index_chars:
  "valid_index i \<Longrightarrow> c \<in> set i \<Longrightarrow>
   c \<noteq> CHR ''['' \<and> c \<noteq> CHR '']'' \<and> c \<noteq> CHR ''.'' \<and> \<not> is_line_terminator c"
  unfolding valid_index_def list_all_iff by blast

lemma bracketed_no_line_terminator:
  "list_all valid_index is \<Longrightarrow> c \<in> set (bracketed is) \<Longrightarrow> \<not> is_line_terminator c"
proof (induction "is")
  case Nil
  then show ?case by simp
next
  case (Cons i js)
  from Cons.prems(2) consider "c = CHR ''[''" | "c \<in> set i" | "c = CHR '']''" | "c \<in> set (bracketed js)"
    by auto
  then show ?case
  proof cases
    case 2
    with Cons.prems(1) show ?thesis using valid_index_chars [of i c] by simp
  next
    case 4
    with Cons show ?thesis by simp
  qed simp_all
qed

lemma bracketed_eq_Nil [simp]: "bracketed is = [] \<longleftrightarrow> is = []"
  by (cases "is") simp_all

lemma bracketed_last: "is \<noteq> [] \<Longrightarrow> last (bracketed is) = CHR '']''"
  by (induction "is") simp_all

lemma upto_last_whole: "xs \<noteq> [] \<Longrightarrow> last xs = c \<Longrightarrow> upto_last c xs = xs"
proof -
  assume "xs \<noteq> []" "last xs = c"
  then obtain ys where "xs = ys @ [c]"
    by (metis append_butlast_last_id)
  then show ?thesis by (simp add: upto_last_def)
qed

lemma bracket_groups_bracketed:
  assumes "list_all valid_index is"
  shows "bracket_groups (bracketed is) = bracketed is"
proof (cases "is")
  case Nil
  then show ?thesis by (simp add: bracket_groups_def)
next
  case (Cons i js)
  let ?t = "i @ CHR '']'' # bracketed js"
  have nl: "\<forall>c\<in>set ?t. \<not> is_line_terminator c"
  proof
    fix c assume "c \<in> set ?t"
    then have "c \<in> set (bracketed is)" using Cons by simp
    then show "\<not> is_line_terminator c"
      using bracketed_no_line_terminator [OF assms] by blast
  qed
  then have tw: "takeWhile (\<lambda>c. \<not> is_line_terminator c) ?t = ?t"
    by (simp only: takeWhile_eq_all_conv)
  have "last (bracketed (i # js)) = CHR '']''"
    by (rule bracketed_last) simp
  then have "last ?t = CHR '']''" by simp
  then have ul: "upto_last (CHR '']'') ?t = ?t"
    by (intro upto_last_whole) simp_all
  have "bracket_groups (CHR ''['' # ?t) =
      (let body = upto_last (CHR '']'') (takeWhile (\<lambda>c. \<not> is_line_terminator c) ?t)
       in if body = [] then [] else CHR ''['' # body)"
    by (simp only: bracket_groups_def list.case)
  also have "\<dots> = CHR ''['' # ?t"
    unfolding tw ul Let_def by simp
  finally show ?thesis using Cons by simp
qed

lemma regex_match_segment:
  assumes "valid_name name" "list_all valid_index is"
  shows "regex_match (name @ bracketed is) = Some (name, bracketed is)"
proof -
  from assms(1) obtain a n' where n: "name = a # n'" and a: "a \<noteq> CHR ''[''"
    and all: "\<forall>c\<in>set name. c \<noteq> CHR ''[''"
    by (cases name) (auto simp: valid_name_def list_all_iff)
  have d: "dropWhile (\<lambda>c. c = CHR ''['') (name @ bracketed is) = name @ bracketed is"
    using n a by simp
  have b: "takeWhile (\<lambda>c. c \<noteq> CHR ''['') (bracketed is) = []"
    "dropWhile (\<lambda>c. c \<noteq> CHR ''['') (bracketed is) = bracketed is"
    by (cases "is"; simp)+
  have t: "takeWhile (\<lambda>c. c \<noteq> CHR ''['') (name @ bracketed is) = name"
    using all b by (simp add: takeWhile_append2)
  have r: "dropWhile (\<lambda>c. c \<noteq> CHR ''['') (name @ bracketed is) = bracketed is"
    using all b by (simp add: dropWhile_append2)
  show ?thesis
    unfolding regex_match_def d Let_def t r
    using n bracket_groups_bracketed [OF assms(2)] by simp
qed

lemma slice_inner_bracketed: "is \<noteq> [] \<Longrightarrow> slice_inner (bracketed is) = join '']['' is"
proof (induction "is")
  case Nil
  then show ?case by simp
next
  case (Cons i js)
  show ?case
  proof (cases js)
    case Nil
    then show ?thesis by (simp add: slice_inner_def)
  next
    case (Cons j ks)
    with Cons.IH have ih: "butlast (tl (bracketed js)) = join '']['' js"
      by (simp add: slice_inner_def)
    from Cons have "bracketed js = CHR ''['' # tl (bracketed js)" "tl (bracketed js) \<noteq> []"
      by simp_all
    then have "butlast (bracketed js) = CHR ''['' # butlast (tl (bracketed js))"
      by (metis butlast.simps(2))
    with ih Cons show ?thesis
      by (simp add: slice_inner_def butlast_append)
  qed
qed

lemma split_indices:
  assumes "list_all valid_index is" "is \<noteq> []"
  shows "split_on '']['' [] (slice_inner (bracketed is)) = is"
proof -
  from assms(1) have "\<forall>x\<in>set is. CHR '']'' \<notin> set x"
    by (auto simp: valid_index_def list_all_iff)
  with assms(2) show ?thesis
    using split_on_join [of "is" "CHR '']''" "''[''" "[]"]
    by (simp add: slice_inner_bracketed)
qed

lemma parse_fragments_segments:
  "list_all valid_segment segments \<Longrightarrow>
   parse_fragments (map segment_text segments) result
     = Inr (result @ concat (map segment_fragments segments))"
proof (induction segments arbitrary: result)
  case Nil
  then show ?case by simp
next
  case (Cons seg segments)
  obtain name "is" where seg: "seg = (name, is)" by (cases seg)
  with Cons.prems have v: "valid_name name" "list_all valid_index is"
    and rest: "list_all valid_segment segments" by simp_all
  have m: "regex_match (segment_text seg) = Some (name, bracketed is)"
    using seg regex_match_segment [OF v] by simp
  have i: "(if bracketed is \<noteq> [] then split_on '']['' [] (slice_inner (bracketed is)) else []) = is"
    using split_indices [OF v(2)] by (cases "is") simp_all
  show ?case
    using m i Cons.IH [OF rest] seg by simp
qed

lemma valid_name_chars:
  "valid_name name \<Longrightarrow> c \<in> set name \<Longrightarrow>
   c \<noteq> CHR ''['' \<and> c \<noteq> CHR '']'' \<and> c \<noteq> CHR ''.''"
  unfolding valid_name_def list_all_iff by blast

lemma bracketed_no_dot:
  "list_all valid_index is \<Longrightarrow> c \<in> set (bracketed is) \<Longrightarrow> c \<noteq> CHR ''.''"
proof (induction "is")
  case Nil
  then show ?case by simp
next
  case (Cons i js)
  from Cons.prems(2) consider "c = CHR ''[''" | "c \<in> set i" | "c = CHR '']''" | "c \<in> set (bracketed js)"
    by auto
  then show ?case
  proof cases
    case 2
    with Cons.prems(1) show ?thesis using valid_index_chars [of i c] by simp
  next
    case 4
    with Cons show ?thesis by simp
  qed simp_all
qed

lemma segment_text_no_dot:
  assumes "valid_segment seg"
  shows "CHR ''.'' \<notin> set (segment_text seg)"
proof
  obtain name "is" where seg: "seg = (name, is)" by (cases seg)
  assume "CHR ''.'' \<in> set (segment_text seg)"
  with seg consider "CHR ''.'' \<in> set name" | "CHR ''.'' \<in> set (bracketed is)"
    by auto
  then show False
  proof cases
    case 1
    with assms seg show False using valid_name_chars [of name "CHR ''.''"] by simp
  next
    case 2
    with assms seg show False using bracketed_no_dot [of "is" "CHR ''.''"] by simp
  qed
qed

lemma segment_fragments_nonempty:
  "list_all valid_segment segments \<Longrightarrow>
   filter (\<lambda>fragment. fragment \<noteq> []) (concat (map segment_fragments segments))
     = concat (map segment_fragments segments)"
proof (induction segments)
  case Nil
  then show ?case by simp
next
  case (Cons seg segments)
  obtain name "is" where seg: "seg = (name, is)" by (cases seg)
  with Cons.prems have ne: "name \<noteq> []" "\<forall>i\<in>set is. i \<noteq> []"
    by (simp_all add: valid_name_def valid_index_def list_all_iff)
  then have "filter (\<lambda>fragment. fragment \<noteq> []) is = is"
    by (simp add: filter_id_conv)
  with Cons seg ne show ?case by simp
qed

lemma parseJsonPath_path_text:
  assumes "segments \<noteq> []" "list_all valid_segment segments"
  shows "parseJsonPath (path_text segments) = Inr (concat (map segment_fragments segments))"
proof -
  have "\<forall>x\<in>set (map segment_text segments). CHR ''.'' \<notin> set x"
    using assms(2) segment_text_no_dot by (auto simp: list_all_iff)
  with assms(1) have "split_on ''.'' [] (path_text segments) = map segment_text segments"
    using split_on_join [of "map segment_text segments" "CHR ''.''" "[]" "[]"]
    by (cases segments) (simp_all add: path_text_def)
  then show ?thesis
    using parse_fragments_segments [OF assms(2), of "[]"] segment_fragments_nonempty [OF assms(2)]
    by (simp add: parseJsonPath_def)
qed

text \<open>
  The claim C1 as written fails: a bracketed group that is no number is accepted and
  returned as a fragment, no error is raised.
\<close>

theorem parse_bracket_content_unchecked: "parseJsonPath ''a[x]'' = Inr [''a'', ''x'']"
  by (simp add: parse_defs)

text \<open>
  Claim C1, as the code has it, for the names and for the bracketed groups that are no
  numbers. For a path made of one or more segments joined by dots, each a name followed by
  bracketed groups whose content is non-empty and free of brackets, dots, line breaks and
  digits, \<^verbatim>\<open>parseJsonPath\<close> raises no error and returns, in order, one fragment for each
  name followed by one fragment for each bracketed group, which is the content of the
  group. What is returned for a group that holds a number is not part of this statement.
\<close>

theorem parse_valid_path:
  "segments \<noteq> [] \<and> list_all valid_segment segments \<longrightarrow>
     parseJsonPath (path_text segments) = Inr (concat (map segment_fragments segments))"
  using parseJsonPath_path_text by blast

theorem parse_valid_path_witness:
  "[(''a'', [''x'', ''y'']), (''foo'', []), (''bar'', [''z''])] \<noteq> []
   \<and> list_all valid_segment [(''a'', [''x'', ''y'']), (''foo'', []), (''bar'', [''z''])]
   \<and> path_text [(''a'', [''x'', ''y'']), (''foo'', []), (''bar'', [''z''])] = ''a[x][y].foo.bar[z]''
   \<and> parseJsonPath ''a[x][y].foo.bar[z]'' = Inr [''a'', ''x'', ''y'', ''foo'', ''bar'', ''z'']"
proof -
  have v: "list_all valid_segment [(''a'', [''x'', ''y'']), (''foo'', []), (''bar'', [''z''])]"
    by (simp add: valid_name_def valid_index_def is_line_terminator_def is_digit_def)
  have t: "path_text [(''a'', [''x'', ''y'']), (''foo'', []), (''bar'', [''z''])] = ''a[x][y].foo.bar[z]''"
    by (simp add: path_text_def)
  show ?thesis
    using v t parse_valid_path [of "[(''a'', [''x'', ''y'']), (''foo'', []), (''bar'', [''z''])]"]
    by simp
qed

section \<open>Normalizing the value\<close>

lemma validCliPaths_boolean:
  "map_of validCliPaths path = Some ''boolean'' \<longleftrightarrow>
   path = ''cli.warnings.versionMismatch'' \<or> path = ''cli.warnings.typescriptMismatch''"
  by (simp add: validCliPaths_def)

lemma validCliPaths_no_number: "map_of validCliPaths path \<noteq> Some ''number''"
  by (simp add: validCliPaths_def)

text \<open>
  Claim C7. For a path registered as boolean, the raw value is turned into a string and
  trimmed; the result is \<^verbatim>\<open>true\<close> for the text \<^verbatim>\<open>true\<close>, \<^verbatim>\<open>false\<close> for the text \<^verbatim>\<open>false\<close>, compared
  exactly, and the invalid-type error for everything else.
\<close>

theorem normalize_boolean:
  "(map_of validCliPaths path = Some ''boolean'' \<longrightarrow>
      normalizeValue h raw path =
        (if trim (to_string h raw) = ''true'' then Inr (JBool True)
         else if trim (to_string h raw) = ''false'' then Inr (JBool False)
         else Inl (InvalidValueType ''boolean'')))
   \<and> normalizeValue h (RStr ''true'') ''cli.warnings.versionMismatch'' = Inr (JBool True)
   \<and> normalizeValue h (RStr ''maybe'') ''cli.warnings.versionMismatch''
       = Inl (InvalidValueType ''boolean'')
   \<and> normalizeValue h (RStr '' false  '') ''cli.warnings.typescriptMismatch'' = Inr (JBool False)
   \<and> normalizeValue h (RStr ''True'') ''cli.warnings.versionMismatch''
       = Inl (InvalidValueType ''boolean'')"
proof (intro conjI impI)
  assume "map_of validCliPaths path = Some ''boolean''"
  then show "normalizeValue h raw path =
        (if trim (to_string h raw) = ''true'' then Inr (JBool True)
         else if trim (to_string h raw) = ''false'' then Inr (JBool False)
         else Inl (InvalidValueType ''boolean''))"
    by (simp add: normalizeValue_def normalizeTyped_def)
next
  show "normalizeValue h (RStr ''true'') ''cli.warnings.versionMismatch'' = Inr (JBool True)"
    by (simp add: normalizeValue_def normalizeTyped_def validCliPaths_def trim_def is_white_space_def)
next
  show "normalizeValue h (RStr ''maybe'') ''cli.warnings.versionMismatch''
       = Inl (InvalidValueType ''boolean'')"
    by (simp add: normalizeValue_def normalizeTyped_def validCliPaths_def trim_def is_white_space_def)
next
  show "normalizeValue h (RStr '' false  '') ''cli.warnings.typescriptMismatch'' = Inr (JBool False)"
    by (simp add: normalizeValue_def normalizeTyped_def validCliPaths_def trim_def is_white_space_def)
next
  show "normalizeValue h (RStr ''True'') ''cli.warnings.versionMismatch''
       = Inl (InvalidValueType ''boolean'')"
    by (simp add: normalizeValue_def normalizeTyped_def validCliPaths_def trim_def is_white_space_def)
qed

theorem normalize_boolean_witness:
  "map_of validCliPaths ''cli.warnings.typescriptMismatch'' = Some ''boolean''
   \<and> normalizeValue rejecting_host (RBool True) ''cli.warnings.typescriptMismatch'' = Inr (JBool True)
   \<and> normalizeValue rejecting_host (RNum NNaN) ''cli.warnings.typescriptMismatch''
       = Inl (InvalidValueType ''boolean'')"
proof -
  have r: "map_of validCliPaths ''cli.warnings.typescriptMismatch'' = Some ''boolean''"
    by (simp add: validCliPaths_def)
  have t: "trim ''true'' = ''true''" "trim ''NaN'' = ''NaN''"
    by (simp_all add: trim_def is_white_space_def)
  show ?thesis
    using r t
      normalize_boolean [where path = "''cli.warnings.typescriptMismatch''" and h = rejecting_host
        and raw = "RBool True"]
      normalize_boolean [where path = "''cli.warnings.typescriptMismatch''" and h = rejecting_host
        and raw = "RNum NNaN"]
    by (simp add: rejecting_host_def)
qed

text \<open>
  The \<^verbatim>\<open>number\<close> case of the \<^verbatim>\<open>switch\<close> returns the number when it is not finite and raises
  the invalid-type error when it is finite. No path of the registry has this type, so no
  call of \<^verbatim>\<open>normalizeValue\<close> reaches the case.
\<close>

lemma normalizeTyped_number:
  "normalizeTyped h ''number'' raw =
     (if isFinite (to_number h raw) then Inl (InvalidValueType ''number'')
      else Inr (JNum (to_number h raw)))"
  by (simp add: normalizeTyped_def Let_def)

text \<open>
  Claim C9. For a path outside the registry and a string, the result is what the lenient
  parser returns; when the parser fails on an invalid character and the text does not
  start with an opening brace, the result is the text itself as a string; every other
  failure of the parser is raised. In particular for the texts \<^verbatim>\<open>42\<close> and
  \<^verbatim>\<open>not-json-but-plain\<close> with any parser that does on them what the specification states.
\<close>

theorem normalize_unregistered:
  "(map_of validCliPaths path = None \<and> parseJson h s = Inr v \<longrightarrow>
      normalizeValue h (RStr s) path = Inr v)
   \<and> (map_of validCliPaths path = None \<and> parseJson h s = Inl InvalidJsonCharacterException
       \<and> \<not> starts_with_brace s \<longrightarrow>
      normalizeValue h (RStr s) path = Inr (JStr s))
   \<and> (map_of validCliPaths path = None \<and> parseJson h s = Inl e
       \<and> (e \<noteq> InvalidJsonCharacterException \<or> starts_with_brace s) \<longrightarrow>
      normalizeValue h (RStr s) path = Inl (JsonParseFailure e))
   \<and> normalizeValue (h\<lparr>parseJson := spec_parseJson p\<rparr>) (RStr ''42'') ''schematics.foo''
       = Inr (JNum (NFinite 42))
   \<and> normalizeValue (h\<lparr>parseJson := spec_parseJson p\<rparr>) (RStr ''not-json-but-plain'')
        ''schematics.foo''
       = Inr (JStr ''not-json-but-plain'')"
proof (intro conjI impI)
  assume "map_of validCliPaths path = None \<and> parseJson h s = Inr v"
  then show "normalizeValue h (RStr s) path = Inr v"
    by (simp add: normalizeValue_def normalizeUntyped_def)
next
  assume "map_of validCliPaths path = None \<and> parseJson h s = Inl InvalidJsonCharacterException
       \<and> \<not> starts_with_brace s"
  then show "normalizeValue h (RStr s) path = Inr (JStr s)"
    by (simp add: normalizeValue_def normalizeUntyped_def)
next
  assume "map_of validCliPaths path = None \<and> parseJson h s = Inl e
       \<and> (e \<noteq> InvalidJsonCharacterException \<or> starts_with_brace s)"
  then show "normalizeValue h (RStr s) path = Inl (JsonParseFailure e)"
    by (auto simp: normalizeValue_def normalizeUntyped_def)
next
  show "normalizeValue (h\<lparr>parseJson := spec_parseJson p\<rparr>) (RStr ''42'') ''schematics.foo''
       = Inr (JNum (NFinite 42))"
    by (simp add: normalizeValue_def normalizeUntyped_def validCliPaths_def spec_parseJson_def)
next
  show "normalizeValue (h\<lparr>parseJson := spec_parseJson p\<rparr>) (RStr ''not-json-but-plain'')
        ''schematics.foo'' = Inr (JStr ''not-json-but-plain'')"
    by (simp add: normalizeValue_def normalizeUntyped_def validCliPaths_def spec_parseJson_def
        starts_with_brace_def)
qed

theorem normalize_unregistered_witness:
  "map_of validCliPaths ''schematics.foo'' = None
   \<and> parseJson (rejecting_host\<lparr>parseJson := spec_parseJson (\<lambda>s. Inl OtherJsonException)\<rparr>) ''42''
       = Inr (JNum (NFinite 42))
   \<and> normalizeValue (rejecting_host\<lparr>parseJson := spec_parseJson (\<lambda>s. Inl OtherJsonException)\<rparr>)
        (RStr ''42'') ''schematics.foo'' = Inr (JNum (NFinite 42))
   \<and> parseJson rejecting_host ''plain'' = Inl InvalidJsonCharacterException
   \<and> \<not> starts_with_brace ''plain''
   \<and> normalizeValue rejecting_host (RStr ''plain'') ''schematics.foo'' = Inr (JStr ''plain'')
   \<and> parseJson rejecting_host ''{x'' = Inl InvalidJsonCharacterException
   \<and> starts_with_brace ''{x''
   \<and> normalizeValue rejecting_host (RStr ''{x'') ''schematics.foo''
       = Inl (JsonParseFailure InvalidJsonCharacterException)"
proof -
  have r: "map_of validCliPaths ''schematics.foo'' = None"
    by (simp add: validCliPaths_def)
  have a: "parseJson (rejecting_host\<lparr>parseJson := spec_parseJson (\<lambda>s. Inl OtherJsonException)\<rparr>) ''42''
       = Inr (JNum (NFinite 42))"
    by (simp add: spec_parseJson_def)
  have b: "parseJson rejecting_host ''plain'' = Inl InvalidJsonCharacterException"
    "parseJson rejecting_host ''{x'' = Inl InvalidJsonCharacterException"
    by (simp_all add: rejecting_host_def)
  have c: "\<not> starts_with_brace ''plain''" "starts_with_brace ''{x''"
    by (simp_all add: starts_with_brace_def)
  show ?thesis
    using r a b c
      normalize_unregistered [where path = "''schematics.foo''" and s = "''42''"
        and h = "rejecting_host\<lparr>parseJson := spec_parseJson (\<lambda>s. Inl OtherJsonException)\<rparr>"
        and v = "JNum (NFinite 42)"]
      normalize_unregistered [where path = "''schematics.foo''" and s = "''plain''"
        and h = rejecting_host]
      normalize_unregistered [where path = "''schematics.foo''" and s = "''{x''"
        and h = rejecting_host and e = InvalidJsonCharacterException]
    by simp
qed

end
